theory Spec2Isabelle
  imports Complex_Main
begin

section \<open>TEMPEST: the numerical core of \<open>tempest.py\<close>\<close>

text \<open>
  The program works on numpy arrays of 64-bit floats.  Floats are idealised as \<open>real\<close>;
  rounding, overflow and NaN are outside this model.  The module sets
  \<^verbatim>\<open>np.seterr(divide='raise',invalid='raise')\<close>, so every division by zero and every
  square root of a negative number raises \<^verbatim>\<open>FloatingPointError\<close>: these are branches of
  the model.  Arrays are lists, a batch of models is a list of rows, and the messages the
  program prints are collected in a list of strings that is returned with the result.

  The arguments \<open>nsteps\<close>, \<open>steps\<close>, \<open>nmods\<close> and \<open>models\<close> of the source are the
  shape of the arrays passed with them: \<open>nsteps = steps = len(r)\<close>, every row of a batch
  has that length, and \<open>nmods = models\<close> is the number of rows.  The model reads them off
  the arrays.  The index arrays \<open>icrit\<close> and \<open>iTR\<close> are float arrays that hold whole
  numbers and are used as indices; they are modelled as integers.
\<close>

subsection \<open>Errors and elementary operations\<close>

datatype error = FloatingPointError | UnboundLocalError | IndexError | ValueError

definition fdiv :: "real \<Rightarrow> real \<Rightarrow> error + real" where
  "fdiv a b = (if b = 0 then Inl FloatingPointError else Inr (a / b))"

definition fsqrt :: "real \<Rightarrow> error + real" where
  "fsqrt a = (if a < 0 then Inl FloatingPointError else Inr (sqrt a))"

text \<open>
  Reading and writing \<^verbatim>\<open>a[i]\<close> with a Python integer \<open>i\<close>: an index from \<open>-len(a)\<close> up
  to \<open>-1\<close> addresses the array from its end, anything outside \<open>-len(a) \<dots> len(a)-1\<close>
  raises \<^verbatim>\<open>IndexError\<close>.
\<close>

definition getitem :: "'a list \<Rightarrow> int \<Rightarrow> error + 'a" where
  "getitem a i =
     (if 0 \<le> i \<and> i < int (length a) then Inr (a ! nat i)
      else if - int (length a) \<le> i \<and> i < 0 then Inr (a ! nat (int (length a) + i))
      else Inl IndexError)"

definition setitem :: "'a list \<Rightarrow> int \<Rightarrow> 'a \<Rightarrow> error + 'a list" where
  "setitem a i v =
     (if 0 \<le> i \<and> i < int (length a) then Inr (a[nat i := v])
      else if - int (length a) \<le> i \<and> i < 0 then Inr (a[nat (int (length a) + i) := v])
      else Inl IndexError)"

subsection \<open>Linear interpolation (\<^verbatim>\<open>np.interp\<close>)\<close>

text \<open>
  \<^verbatim>\<open>np.interp(x, xp, fp)\<close> for an increasing \<open>xp\<close>: the value of \<open>fp\<close> at the first sample
  when \<open>x\<close> is at or below it, at the last sample when \<open>x\<close> is at or above it, and the
  linear interpolant \<^verbatim>\<open>slope*(x - xp[j]) + fp[j]\<close> on the interval \<open>xp[j] \<le> x < xp[j+1]\<close>
  otherwise.  An empty \<open>xp\<close> and arrays of different lengths raise \<^verbatim>\<open>ValueError\<close>.
\<close>

fun interp_pts :: "real \<Rightarrow> real list \<Rightarrow> real list \<Rightarrow> real" where
  "interp_pts x (x0 # x1 # xs) (f0 # f1 # fs) =
     (if x < x1
      then (if x \<le> x0 then f0 else ((f1 - f0) / (x1 - x0)) * (x - x0) + f0)
      else interp_pts x (x1 # xs) (f1 # fs))"
| "interp_pts x xs (f0 # fs) = f0"
| "interp_pts x xs [] = 0"

definition interp :: "real \<Rightarrow> real list \<Rightarrow> real list \<Rightarrow> error + real" where
  "interp x xp fp =
     (if xp = [] \<or> length xp \<noteq> length fp then Inl ValueError
      else Inr (interp_pts x xp fp))"

subsection \<open>Slope evaluation: \<open>dfdrval\<close>\<close>

text \<open>
  The argument \<open>dfdr\<close> of \<open>rk4\<close> and \<open>dfdrval\<close> is either one numpy array (a derivative
  profile) or the pair \<^verbatim>\<open>(ucrj, rhsj)\<close>; \<open>dfdrval\<close> tells them apart with
  \<^verbatim>\<open>isinstance(dfdr, np.ndarray)\<close>.
\<close>

datatype slope_source = Plain "real list" | CriticalOde "real list" "real list"

fun dfdrval :: "real \<Rightarrow> real \<Rightarrow> real list \<Rightarrow> slope_source \<Rightarrow> error + real" where
  "dfdrval uval rval rarray (CriticalOde ucr rhs) =
     (case interp rval rarray ucr of Inl e \<Rightarrow> Inl e | Inr ucrval \<Rightarrow>
      case interp rval rarray rhs of Inl e \<Rightarrow> Inl e | Inr rhsval \<Rightarrow>
      case fdiv (ucrval ^ 2) uval of Inl e \<Rightarrow> Inl e | Inr q \<Rightarrow>
      fdiv rhsval (uval - q))"
| "dfdrval uval rval rarray (Plain dfdr) = interp rval rarray dfdr"

subsection \<open>The adaptive integrator \<open>rk4\<close>\<close>

text \<open>
  The local variables of the \<^verbatim>\<open>while\<close> loop.  \<open>ff\<close> is assigned only inside the loop
  body, so it starts unassigned (\<open>None\<close>).
\<close>

record rk4_state =
  rstep :: real
  fstep :: real
  stepstotal :: real
  stepstaken :: nat
  ff :: "real option"

definition adaptiveconstant :: real where
  "adaptiveconstant = 0.1"

text \<open>
  One pass through the loop body.  The slope evaluator \<open>sl y x\<close> stands for the call
  \<^verbatim>\<open>dfdrval(y, x, r, dfdr)\<close>; \<open>rk4\<close> below instantiates it.
\<close>

definition rk4_substep ::
  "(real \<Rightarrow> real \<Rightarrow> error + real) \<Rightarrow> real \<Rightarrow> rk4_state \<Rightarrow> error + rk4_state" where
  "rk4_substep sl dr s =
     (let sign = sgn dr; r1 = rstep s; f1 = fstep s in
      case sl (fstep s) (rstep s) of Inl e \<Rightarrow> Inl e | Inr slope0 \<Rightarrow>
      case fdiv slope0 (fstep s) of Inl e \<Rightarrow> Inl e | Inr dlnf \<Rightarrow>
      case fdiv adaptiveconstant dlnf of Inl e \<Rightarrow> Inl e | Inr q \<Rightarrow>
      let deltar0 = sign * \<bar>q\<bar>;
          deltar = (if \<bar>stepstotal s\<bar> + \<bar>deltar0\<bar> > \<bar>dr\<bar> \<or> stepstaken s > 100
                    then sign * (\<bar>dr\<bar> - \<bar>stepstotal s\<bar>) else deltar0);
          r2 = r1 + 0.5 * deltar;
          r3 = r1 + deltar;
          y1 = fstep s in
      case sl y1 r1 of Inl e \<Rightarrow> Inl e | Inr k1 \<Rightarrow>
      let pk1 = dr * k1; y2 = fstep s + 0.5 * pk1 in
      case sl y2 r2 of Inl e \<Rightarrow> Inl e | Inr k2 \<Rightarrow>
      let pk2 = dr * k2; y3 = fstep s + 0.5 * pk2 in
      case sl y3 r2 of Inl e \<Rightarrow> Inl e | Inr k3 \<Rightarrow>
      let pk3 = dr * k3; y4 = fstep s + pk3 in
      case sl y4 r3 of Inl e \<Rightarrow> Inl e | Inr k4 \<Rightarrow>
      let pk4 = dr * k4;
          ffnew = fstep s + (pk1 + pk4) / 6 + (pk2 + pk3) / 3 in
      Inr \<lparr>rstep = rstep s + deltar, fstep = ffnew,
           stepstotal = stepstotal s + \<bar>deltar\<bar>,
           stepstaken = stepstaken s + 1, ff = Some ffnew\<rparr>)"

text \<open>
  What one pass does to the two loop counters; this is all the termination proof needs.
\<close>

lemma rk4_substep_counters:
  assumes "rk4_substep sl dr s = Inr s'" and "\<bar>stepstotal s\<bar> < \<bar>dr\<bar>"
  shows "stepstaken s' = stepstaken s + 1"
    and "stepstaken s > 100 \<Longrightarrow> stepstotal s' = stepstotal s + (\<bar>dr\<bar> - \<bar>stepstotal s\<bar>)"
    and "stepstotal s \<le> stepstotal s'"
    and "0 \<le> stepstotal s \<Longrightarrow> stepstotal s' \<le> \<bar>dr\<bar>"
proof -
  from assms(2) have nz: "dr \<noteq> 0" by auto
  then have sg: "\<bar>sgn dr\<bar> = 1" by (simp add: abs_sgn_eq)
  from assms(1) obtain deltar where
    d: "stepstotal s' = stepstotal s + \<bar>deltar\<bar>" "stepstaken s' = stepstaken s + 1"
       "stepstaken s > 100 \<Longrightarrow> deltar = sgn dr * (\<bar>dr\<bar> - \<bar>stepstotal s\<bar>)"
       "\<bar>stepstotal s\<bar> + \<bar>deltar\<bar> \<le> \<bar>dr\<bar> \<or> deltar = sgn dr * (\<bar>dr\<bar> - \<bar>stepstotal s\<bar>)"
    unfolding rk4_substep_def Let_def
    by (auto split: sum.splits if_splits)
  show "stepstaken s' = stepstaken s + 1" by (rule d(2))
  have clamp: "\<bar>sgn dr * (\<bar>dr\<bar> - \<bar>stepstotal s\<bar>)\<bar> = \<bar>dr\<bar> - \<bar>stepstotal s\<bar>"
    using assms(2) sg by (simp add: abs_mult)
  show "stepstaken s > 100 \<Longrightarrow> stepstotal s' = stepstotal s + (\<bar>dr\<bar> - \<bar>stepstotal s\<bar>)"
    using d(1) d(3) clamp by simp
  show "stepstotal s \<le> stepstotal s'" using d(1) by simp
  show "0 \<le> stepstotal s \<Longrightarrow> stepstotal s' \<le> \<bar>dr\<bar>"
    using d(1) d(4) clamp by auto
qed

text \<open>
  The \<^verbatim>\<open>while np.abs(stepstotal) < np.abs(dr)\<close> loop.  An exception raised in the body
  leaves the loop.
\<close>

definition doublings :: "real \<Rightarrow> real \<Rightarrow> nat" where
  "doublings dr st =
     (if st < 0 then 2 + nat \<lceil>log 2 (\<bar>dr\<bar> / (st + \<bar>dr\<bar>))\<rceil>
      else if st < \<bar>dr\<bar> then 1 else 0)"

lemma doublings_decreases:
  assumes "\<bar>st\<bar> < \<bar>dr\<bar>"
  shows "doublings dr (st + (\<bar>dr\<bar> - \<bar>st\<bar>)) < doublings dr st"
proof (cases "st < 0")
  case False
  then show ?thesis using assms by (simp add: doublings_def)
next
  case True
  let ?x = "st + \<bar>dr\<bar>"
  have xpos: "0 < ?x" and xlt: "?x < \<bar>dr\<bar>" using True assms by auto
  have st': "st + (\<bar>dr\<bar> - \<bar>st\<bar>) = 2 * ?x - \<bar>dr\<bar>" using True by simp
  show ?thesis
  proof (cases "2 * ?x - \<bar>dr\<bar> < 0")
    case False
    then show ?thesis using True st' by (simp add: doublings_def)
  next
    case neg: True
    have ratio: "1 < \<bar>dr\<bar> / ?x" using xpos xlt by simp
    have "log 2 (\<bar>dr\<bar> / (2 * ?x)) = log 2 (\<bar>dr\<bar> / ?x) - 1"
    proof -
      have "\<bar>dr\<bar> / (2 * ?x) = (\<bar>dr\<bar> / ?x) / 2" by simp
      then have "log 2 (\<bar>dr\<bar> / (2 * ?x)) = log 2 ((\<bar>dr\<bar> / ?x) / 2)"
        by (rule arg_cong)
      also have "\<dots> = log 2 (\<bar>dr\<bar> / ?x) - log 2 2"
        using ratio by (intro log_divide_pos) auto
      finally show ?thesis by simp
    qed
    then have c: "\<lceil>log 2 (\<bar>dr\<bar> / (2 * ?x))\<rceil> = \<lceil>log 2 (\<bar>dr\<bar> / ?x)\<rceil> - 1" by simp
    have "0 < log 2 (\<bar>dr\<bar> / ?x)" using ratio by simp
    then have "1 \<le> \<lceil>log 2 (\<bar>dr\<bar> / ?x)\<rceil>" by linarith
    then have lt: "nat (\<lceil>log 2 (\<bar>dr\<bar> / ?x)\<rceil> - 1) < nat \<lceil>log 2 (\<bar>dr\<bar> / ?x)\<rceil>" by linarith
    have readd: "2 * ?x - \<bar>dr\<bar> + \<bar>dr\<bar> = 2 * ?x" by simp
    have "doublings dr (2 * ?x - \<bar>dr\<bar>) = 2 + nat \<lceil>log 2 (\<bar>dr\<bar> / (2 * ?x))\<rceil>"
      unfolding doublings_def using neg by (simp only: readd if_True)
    moreover have "doublings dr st = 2 + nat \<lceil>log 2 (\<bar>dr\<bar> / ?x)\<rceil>"
      unfolding doublings_def using True by (simp only: if_True)
    ultimately show ?thesis
      unfolding st' c using lt by linarith
  qed
qed

function rk4_loop ::
  "(real \<Rightarrow> real \<Rightarrow> error + real) \<Rightarrow> real \<Rightarrow> rk4_state \<Rightarrow> error + rk4_state" where
  "rk4_loop sl dr s =
     (if \<bar>stepstotal s\<bar> < \<bar>dr\<bar>
      then (case rk4_substep sl dr s of Inl e \<Rightarrow> Inl e | Inr s' \<Rightarrow> rk4_loop sl dr s')
      else Inr s)"
  by pat_completeness auto
termination
proof (relation "measures [\<lambda>(sl, dr, s). 101 - stepstaken s,
                           \<lambda>(sl, dr, s). doublings dr (stepstotal s)]", goal_cases)
  case 1
  show ?case by simp
next
  case (2 sl dr s s')
  show ?case
  proof (cases "stepstaken s > 100")
    case False
    then show ?thesis using rk4_substep_counters(1)[OF 2(2) 2(1)] by auto
  next
    case True
    have "stepstotal s' = stepstotal s + (\<bar>dr\<bar> - \<bar>stepstotal s\<bar>)"
      using rk4_substep_counters(2)[OF 2(2) 2(1)] True by simp
    then have "doublings dr (stepstotal s') < doublings dr (stepstotal s)"
      using doublings_decreases[OF 2(1)] by simp
    then show ?thesis using True rk4_substep_counters(1)[OF 2(2) 2(1)] by simp
  qed
qed

declare rk4_loop.simps [simp del]

definition rk4_init :: "real \<Rightarrow> real \<Rightarrow> rk4_state" where
  "rk4_init fi ri = \<lparr>rstep = ri, fstep = fi, stepstotal = 0, stepstaken = 0, ff = None\<rparr>"

text \<open>
  \<^verbatim>\<open>return ff\<close>: reading the unassigned local raises \<^verbatim>\<open>UnboundLocalError\<close>.
\<close>

definition rk4_with :: "(real \<Rightarrow> real \<Rightarrow> error + real) \<Rightarrow> real \<Rightarrow> real \<Rightarrow> real \<Rightarrow> error + real" where
  "rk4_with sl fi ri dr =
     (case rk4_loop sl dr (rk4_init fi ri) of Inl e \<Rightarrow> Inl e
      | Inr s \<Rightarrow> (case ff s of None \<Rightarrow> Inl UnboundLocalError | Some v \<Rightarrow> Inr v))"

definition rk4 :: "real \<Rightarrow> real \<Rightarrow> real \<Rightarrow> real list \<Rightarrow> slope_source \<Rightarrow> error + real" where
  "rk4 fi ri dr r dfdr = rk4_with (\<lambda>uval rval. dfdrval uval rval r dfdr) fi ri dr"

text \<open>
  The locals of \<open>rk4\<close> when its loop is left, and the locals after at most \<open>n\<close> passes
  through the loop body: the same loop, cut off after \<open>n\<close> passes.
\<close>

definition rk4_run ::
  "real \<Rightarrow> real \<Rightarrow> real \<Rightarrow> real list \<Rightarrow> slope_source \<Rightarrow> error + rk4_state" where
  "rk4_run fi ri dr r dfdr =
     rk4_loop (\<lambda>uval rval. dfdrval uval rval r dfdr) dr (rk4_init fi ri)"

fun rk4_iter ::
  "(real \<Rightarrow> real \<Rightarrow> error + real) \<Rightarrow> real \<Rightarrow> nat \<Rightarrow> rk4_state \<Rightarrow> error + rk4_state" where
  "rk4_iter sl dr 0 s = Inr s"
| "rk4_iter sl dr (Suc n) s =
     (if \<bar>stepstotal s\<bar> < \<bar>dr\<bar>
      then (case rk4_substep sl dr s of Inl e \<Rightarrow> Inl e | Inr s' \<Rightarrow> rk4_iter sl dr n s')
      else Inr s)"

definition rk4_passes ::
  "nat \<Rightarrow> real \<Rightarrow> real \<Rightarrow> real \<Rightarrow> real list \<Rightarrow> slope_source \<Rightarrow> error + rk4_state" where
  "rk4_passes n fi ri dr r dfdr =
     rk4_iter (\<lambda>uval rval. dfdrval uval rval r dfdr) dr n (rk4_init fi ri)"




subsection \<open>Sequencing of computations that may raise\<close>

text \<open>
  \<open>bind_err m f\<close> runs \<open>f\<close> on the value of \<open>m\<close>, or passes on the exception of \<open>m\<close>;
  \<open>map_err f xs\<close> is a \<^verbatim>\<open>for\<close> loop that computes one result per element and is left
  by the first exception.
\<close>

fun bind_err :: "error + 'a \<Rightarrow> ('a \<Rightarrow> error + 'b) \<Rightarrow> error + 'b" where
  "bind_err (Inl e) f = Inl e"
| "bind_err (Inr v) f = f v"

fun map_err :: "('a \<Rightarrow> error + 'b) \<Rightarrow> 'a list \<Rightarrow> error + 'b list" where
  "map_err f [] = Inr []"
| "map_err f (x # xs) =
     (case f x of Inl e \<Rightarrow> Inl e
      | Inr y \<Rightarrow> (case map_err f xs of Inl e \<Rightarrow> Inl e | Inr ys \<Rightarrow> Inr (y # ys)))"

text \<open>\<^verbatim>\<open>argmin\<close> of numpy: the index of the first occurrence of the minimum.\<close>

fun argmin :: "real list \<Rightarrow> nat" where
  "argmin [] = 0"
| "argmin [x] = 0"
| "argmin (x # y # ys) = (let i = argmin (y # ys) in if x \<le> (y # ys) ! i then 0 else Suc i)"

subsection \<open>Finite differences: \<open>quickDeriv\<close>\<close>

text \<open>
  \<open>quickDeriv\<close> fills one row per model; \<open>quickDeriv_row\<close> is the body of its loop over
  \<open>j\<close>, for the row \<open>f[j,:]\<close>, with \<open>steps = len(r)\<close> and rows of that length.  The first
  and the last entry are one-sided slopes, the entries between are centred differences.
\<close>

fun centred :: "real list \<Rightarrow> real list \<Rightarrow> nat list \<Rightarrow> error + real list" where
  "centred f r [] = Inr []"
| "centred f r (k # ks) =
     (case fdiv (f ! (k + 1) - f ! (k - 1)) (r ! (k + 1) - r ! (k - 1)) of Inl e \<Rightarrow> Inl e
      | Inr d \<Rightarrow> (case centred f r ks of Inl e \<Rightarrow> Inl e | Inr ds \<Rightarrow> Inr (d # ds)))"

definition quickDeriv_row :: "real list \<Rightarrow> real list \<Rightarrow> error + real list" where
  "quickDeriv_row f r =
     (let steps = length r in
      if steps < 2 \<or> length f < steps then Inl IndexError
      else
        bind_err (fdiv (f ! 1 - f ! 0) (r ! 1 - r ! 0)) (\<lambda>d0.
        bind_err (centred f r [1..<steps - 1]) (\<lambda>ds.
        bind_err (fdiv (f ! (steps - 1) - f ! (steps - 2)) (r ! (steps - 1) - r ! (steps - 2)))
          (\<lambda>dl. Inr (d0 # ds @ [dl])))))"

definition quickDeriv :: "real list list \<Rightarrow> real list \<Rightarrow> error + real list list" where
  "quickDeriv f r = map_err (\<lambda>fj. quickDeriv_row fj r) f"

subsection \<open>The critical slope: \<open>critSlope\<close>\<close>

text \<open>
  The body of the loop over \<open>j\<close> in \<open>critSlope\<close>: the entries \<open>(rC[j], uC[j], dUdrc[j])\<close>
  of the three result arrays, which stay zero for the sentinel index \<open>-1\<close>, and the
  lines printed.
\<close>

definition critSlope_model ::
  "real list \<Rightarrow> real list \<Rightarrow> real list \<Rightarrow> real list \<Rightarrow> int \<Rightarrow>
   error + ((real \<times> real \<times> real) \<times> string list)" where
  "critSlope_model r ucrj dNdrj duCdrj indexcrit =
     (if indexcrit \<noteq> - 1 then
        bind_err (getitem ucrj indexcrit) (\<lambda>uC.
        bind_err (getitem r indexcrit) (\<lambda>rC.
        bind_err (getitem dNdrj indexcrit) (\<lambda>dNdrC.
        bind_err (getitem duCdrj indexcrit) (\<lambda>duCdrC.
          let radicand = duCdrC ^ 2 + 2.0 * dNdrC in
          if radicand \<le> 0
          then Inr ((rC, uC, 0.5 * (duCdrC + sqrt 0)),
                    [''invalid value encountered in sqrt, set to 0''])
          else Inr ((rC, uC, 0.5 * (duCdrC + sqrt radicand)), [])))))
      else Inr ((0, 0, 0), []))"

definition critSlope ::
  "real list \<Rightarrow> real list list \<Rightarrow> real list list \<Rightarrow> int list \<Rightarrow>
   error + ((real \<times> real \<times> real) list \<times> string list)" where
  "critSlope r rhs ucr indexcrit =
     bind_err (quickDeriv rhs r) (\<lambda>dNdr.
     bind_err (quickDeriv ucr r) (\<lambda>duCdr.
     bind_err (map_err (\<lambda>j. critSlope_model r (ucr ! j) (dNdr ! j) (duCdr ! j) (indexcrit ! j))
                 [0..<length rhs]) (\<lambda>res.
       Inr (map fst res,
            concat (map snd res) @ (if length rhs > 1 then [''range of slopes:''] else [])))))"

subsection \<open>The shooting propagator: \<open>slope2curve\<close>\<close>

text \<open>
  The two \<^verbatim>\<open>for\<close> loops of \<open>slope2curve\<close>.  The state is the array \<open>u\<close> and the lines
  printed so far.
\<close>

fun shoot_down ::
  "real list \<Rightarrow> real list \<Rightarrow> real list \<Rightarrow> int list \<Rightarrow> real list \<times> string list \<Rightarrow>
   error + (real list \<times> string list)" where
  "shoot_down r ucrj rhsj [] st = Inr st"
| "shoot_down r ucrj rhsj (i # is) st =
     bind_err (getitem r (i - 1)) (\<lambda>rprev.
     bind_err (getitem r i) (\<lambda>ri.
     bind_err (getitem (fst st) i) (\<lambda>ui.
     bind_err (rk4 ui ri (rprev - ri) r (CriticalOde ucrj rhsj)) (\<lambda>v.
     bind_err (setitem (fst st) (i - 1) v) (\<lambda>u1.
       if v < 0
       then bind_err (setitem u1 (i - 1) ui) (\<lambda>u2.
              shoot_down r ucrj rhsj is (u2, snd st @ [''Negative value encountered (down)'']))
       else shoot_down r ucrj rhsj is (u1, snd st))))))"

fun shoot_up ::
  "real list \<Rightarrow> real list \<Rightarrow> real list \<Rightarrow> int list \<Rightarrow> real list \<times> string list \<Rightarrow>
   error + (real list \<times> string list)" where
  "shoot_up r ucrj rhsj [] st = Inr st"
| "shoot_up r ucrj rhsj (i # is) st =
     bind_err (getitem r (i + 1)) (\<lambda>rnext.
     bind_err (getitem r i) (\<lambda>ri.
     bind_err (getitem (fst st) i) (\<lambda>ui.
     bind_err (rk4 ui ri (rnext - ri) r (CriticalOde ucrj rhsj)) (\<lambda>v.
     bind_err (setitem (fst st) (i + 1) v) (\<lambda>u1.
       if v < 0
       then bind_err (setitem u1 (i + 1) ui) (\<lambda>u2.
              shoot_up r ucrj rhsj is (u2, snd st @ [''Negative value encountered (up)'']))
       else shoot_up r ucrj rhsj is (u1, snd st))))))"

text \<open>
  The four seed points (\<open>r_pt\<close> and \<open>u_pt\<close> are \<open>rpt\<close> and \<open>upt\<close> of the source).  \<open>dUdrpt\<close> is the pair \<^verbatim>\<open>(dUdrpt[0], dUdrpt[1])\<close>.
  \<^verbatim>\<open>range(iC-1,0,-1)\<close> is \<open>iC-1, \<dots>, 1\<close> and \<^verbatim>\<open>range(iC+2,npoints-1)\<close> is
  \<open>iC+2, \<dots>, npoints-2\<close>.
\<close>

definition slope2curve ::
  "real list \<Rightarrow> int \<Rightarrow> real \<Rightarrow> real \<Rightarrow> real \<times> real \<Rightarrow> real list \<Rightarrow> real list \<Rightarrow>
   error + (real list \<times> string list)" where
  "slope2curve r iC r_pt u_pt dUdrpt ucrj rhsj =
     (let npoints = length r; u = replicate npoints 0 in
      bind_err (getitem r iC) (\<lambda>r0.
      bind_err (setitem u iC (u_pt + (r0 - r_pt) * fst dUdrpt)) (\<lambda>u.
      bind_err (getitem r (iC + 1)) (\<lambda>r1.
      bind_err (setitem u (iC + 1) (u_pt + (r1 - r_pt) * snd dUdrpt)) (\<lambda>u.
      bind_err (getitem u iC) (\<lambda>u0.
      bind_err (getitem r (iC - 1)) (\<lambda>rm1.
      bind_err (setitem u (iC - 1) (u0 + (rm1 - r0) * fst dUdrpt)) (\<lambda>u.
      bind_err (getitem u (iC + 1)) (\<lambda>u1.
      bind_err (getitem r (iC + 2)) (\<lambda>r2.
      bind_err (setitem u (iC + 2) (u1 + (r2 - r1) * snd dUdrpt)) (\<lambda>u.
      bind_err (shoot_down r ucrj rhsj (rev [1..iC - 1]) (u, [])) (\<lambda>st.
        shoot_up r ucrj rhsj [iC + 2..int npoints - 2] st))))))))))))"

subsection \<open>The critical-point locator: \<open>outflows\<close>\<close>

text \<open>
  The first loop of \<open>outflows\<close>, for one model: \<open>F[j,0] = 1\<close> and every further entry is
  one call of \<open>rk4\<close> across a grid interval, with the row \<open>rhs[j,:]\<close> as the array
  \<open>dfdr\<close>.  Here and below \<open>nsteps = len(r)\<close> and \<open>nmods\<close> is the number of rows.
\<close>

fun F_loop ::
  "real list \<Rightarrow> real list \<Rightarrow> nat list \<Rightarrow> real \<Rightarrow> real list \<Rightarrow> error + real list" where
  "F_loop r rhsj [] fnow F = Inr F"
| "F_loop r rhsj (k # ks) fnow F =
     bind_err (rk4 fnow (r ! k) (r ! (k + 1) - r ! k) r (Plain rhsj)) (\<lambda>v.
       F_loop r rhsj ks v (F[k + 1 := v]))"

definition F_row :: "real list \<Rightarrow> real list \<Rightarrow> error + real list" where
  "F_row r rhsj =
     (let nsteps = length r in
      if nsteps = 0 then Inl IndexError
      else F_loop r rhsj [0..<nsteps - 1] 1 ((replicate nsteps 0)[0 := 1]))"

text \<open>
  The second loop.  \<open>rootflag\<close> and \<open>badflag\<close> are created once, before the loop over the
  models, and the loop body never resets them.
\<close>

definition signchange :: "real list \<Rightarrow> nat \<Rightarrow> bool" where
  "signchange rhsj k \<longleftrightarrow>
     sgn (rhsj ! k) \<noteq> sgn (rhsj ! (k + 1)) \<and> sgn (rhsj ! (k - 1)) \<noteq> sgn (rhsj ! (k + 2))"

fun flag_roots :: "real list \<Rightarrow> nat list \<Rightarrow> real list \<Rightarrow> real list" where
  "flag_roots rhsj [] rootflag = rootflag"
| "flag_roots rhsj (k # ks) rootflag =
     flag_roots rhsj ks (if signchange rhsj k then rootflag[k := 1] else rootflag)"

definition where_positive :: "real list \<Rightarrow> nat list" where
  "where_positive a = filter (\<lambda>k. a ! k > 0) [0..<length a]"

record locator =
  rootflag :: "real list"
  badflag :: nat
  icrit :: "int list"
  printed :: "string list"

definition locate_model :: "nat \<Rightarrow> real list list \<Rightarrow> real list list \<Rightarrow> nat \<Rightarrow> locator \<Rightarrow> locator" where
  "locate_model nsteps rhs F j st =
     (let flags = flag_roots (rhs ! j) [1..<nsteps - 2] (rootflag st);
          roots = where_positive flags in
      if length roots = 0
      then st\<lparr>rootflag := flags, badflag := 1, icrit := (icrit st)[j := - 1],
              printed := printed st @ [''CAUTION: No critical point for model'']\<rparr>
      else
        let extrema = map (\<lambda>k. F ! j ! k) roots; xpt = argmin extrema in
        st\<lparr>rootflag := flags, icrit := (icrit st)[j := int (roots ! xpt)]\<rparr>)"

definition locate :: "real list \<Rightarrow> real list list \<Rightarrow> real list list \<Rightarrow> locator" where
  "locate r rhs F =
     (let nsteps = length r; nmods = length rhs;
          st = fold (locate_model nsteps rhs F) [0..<nmods]
                 \<lparr>rootflag = replicate nsteps 0, badflag = 0,
                  icrit = replicate nmods 0, printed = []\<rparr>
      in if badflag st = 1
         then st\<lparr>printed := printed st @ [''indexCrit set to -1 for failed models'']\<rparr>
         else st)"

text \<open>
  The last loop: the critical point of model \<open>j\<close> from the two bracketing sides, and its
  velocity profile, which stays zero when \<open>icrit[j]\<close> is the sentinel (\<open>indexcrit\<close> is
  the finished array \<open>icrit\<close>).
\<close>

definition outflow_model ::
  "real list \<Rightarrow> real list list \<Rightarrow> real list list \<Rightarrow> int list \<Rightarrow>
   (real \<times> real \<times> real) list \<Rightarrow> (real \<times> real \<times> real) list \<Rightarrow> nat \<Rightarrow>
   error + ((real list \<times> real) \<times> string list)" where
  "outflow_model r rhs ucr indexcrit cplus cminus j =
     (case (cplus ! j, cminus ! j) of ((rCplus, uCplus, dUdrcplus), (rCminus, uCminus, dUdrcminus)) \<Rightarrow>
        let rC = (rCminus + rCplus) / 2.0;
            uC = (uCminus + uCplus) / 2.0;
            dUdrc = (dUdrcminus, dUdrcplus) in
        if indexcrit ! j \<noteq> - 1
        then bind_err (slope2curve r (indexcrit ! j) rC uC dUdrc (ucr ! j) (rhs ! j))
               (\<lambda>(u, out). Inr ((u, rC - 1.0), out))
        else Inr ((replicate (length r) 0, 0), []))"

definition outflows ::
  "real list \<Rightarrow> real list list \<Rightarrow> real list list \<Rightarrow>
   error + (real list list \<times> real list \<times> string list)" where
  "outflows r rhs ucr =
     bind_err (map_err (F_row r) rhs) (\<lambda>F.
       let loc = locate r rhs F in
       bind_err (critSlope r rhs ucr (map (\<lambda>i. i + 1) (icrit loc))) (\<lambda>(cplus, outplus).
       bind_err (critSlope r rhs ucr (icrit loc)) (\<lambda>(cminus, outminus).
       bind_err (map_err (outflow_model r rhs ucr (icrit loc) cplus cminus) [0..<length rhs])
         (\<lambda>res. Inr (map (fst \<circ> fst) res, map (snd \<circ> fst) res,
                       printed loc @ outplus @ outminus @ concat (map snd res))))))"

subsection \<open>Density from mass-flux conservation: the head of \<open>fullRHS\<close>\<close>

definition Rsun :: real where
  "Rsun = 6.955 * 10 ^ 10"

definition TTR :: real where
  "TTR = 1.2 * 10 ^ 4"

text \<open>
  The body of the first loop over \<open>j\<close> in \<open>fullRHS\<close>, for the rows \<open>B[j,:]\<close>, \<open>T[j,:]\<close>,
  \<open>u[j,:]\<close> and the height \<open>zTR[j]\<close>.  Indexing the empty result of \<^verbatim>\<open>np.where\<close> with
  \<open>-1\<close> raises \<^verbatim>\<open>IndexError\<close>, \<^verbatim>\<open>np.log10\<close> of a number that is not positive raises
  \<^verbatim>\<open>FloatingPointError\<close>, and \<^verbatim>\<open>argmin\<close> of an empty array raises \<^verbatim>\<open>ValueError\<close>.
  \<open>iTR_index\<close> is the second, final value given to \<open>iTR[j]\<close>.
\<close>

definition iTR_index :: "real list \<Rightarrow> real \<Rightarrow> nat" where
  "iTR_index r zTRj = argmin (map (\<lambda>x. \<bar>(x / Rsun - 1.0) - zTRj\<bar>) r)"

definition rhoTR :: "real \<Rightarrow> real" where
  "rhoTR zTRj = 10 powr (- 21.904 - (3.349 * log 10 zTRj))"

definition massflux_row ::
  "real list \<Rightarrow> real list \<Rightarrow> real list \<Rightarrow> real \<Rightarrow> real list \<Rightarrow> error + real list" where
  "massflux_row r Bj Tj zTRj uj =
     (if filter (\<lambda>t. t < 1.1 * TTR) Tj = [] then Inl IndexError
      else if zTRj \<le> 0 then Inl FloatingPointError
      else if r = [] then Inl ValueError
      else
        let iTR = iTR_index r zTRj in
        bind_err (fdiv (rhoTR zTRj * uj ! iTR) (Bj ! iTR)) (\<lambda>c.
        bind_err (map_err (\<lambda>k. fdiv (Bj ! k) (uj ! k)) [0..<length r]) (\<lambda>q.
          Inr (map (\<lambda>x. c * x) q))))"

text \<open>\<^verbatim>\<open>VA = B/np.sqrt(4*np.pi*rho)\<close>, row by row.\<close>

definition alfven_row :: "real list \<Rightarrow> real list \<Rightarrow> error + real list" where
  "alfven_row Bj rhoj =
     map_err (\<lambda>k. bind_err (fsqrt (4 * pi * rhoj ! k)) (\<lambda>s. fdiv (Bj ! k) s)) [0..<length rhoj]"

definition fullRHS_density ::
  "real list \<Rightarrow> real list list \<Rightarrow> real list list \<Rightarrow> real list \<Rightarrow> real list list \<Rightarrow>
   error + (real list list \<times> real list list)" where
  "fullRHS_density r B T zTR u =
     bind_err (map_err (\<lambda>j. massflux_row r (B ! j) (T ! j) (zTR ! j) (u ! j)) [0..<length B])
       (\<lambda>rho.
     bind_err (map_err (\<lambda>j. alfven_row (B ! j) (rho ! j)) [0..<length B]) (\<lambda>VA.
       Inr (rho, VA)))"

subsection \<open>The outer fixed-point loop of \<open>main\<close>\<close>

text \<open>
  The \<^verbatim>\<open>while\<close> loop that \<open>main\<close> runs for one model \<open>j\<close>.  Its state is \<open>uinj[0,:]\<close>,
  \<open>changemodels[j]\<close> and \<open>it\<close>.  The argument \<open>prospero\<close> stands for the call
  \<^verbatim>\<open>prospero(rm,1,nsteps,Bj,dBdrj,Tj,dTdrj,zTR[j],uinj)\<close> as a function of \<open>uinj[0,:]\<close>,
  returning \<open>uj[0,:]\<close>; the other arguments do not change in the loop.  A power of a
  negative float with exponent \<open>0.9\<close> or \<open>0.1\<close> and the mean of an empty array are invalid
  operations.
\<close>

definition itexp :: real where
  "itexp = 0.1"

definition fpow :: "real \<Rightarrow> real \<Rightarrow> error + real" where
  "fpow x a = (if x < 0 then Inl FloatingPointError else Inr (x powr a))"

definition mean :: "real list \<Rightarrow> error + real" where
  "mean xs = fdiv (sum_list xs) (real (length xs))"

definition relax_step ::
  "(real list \<Rightarrow> error + real list) \<Rightarrow> real list \<Rightarrow> error + (real list \<times> real)" where
  "relax_step prospero uinj =
     bind_err (prospero uinj) (\<lambda>uj.
     bind_err (map_err (\<lambda>k. bind_err (fdiv (uj ! k - uinj ! k) (uinj ! k)) (\<lambda>q. Inr \<bar>q\<bar>))
                 [0..<length uinj]) (\<lambda>allchange.
     bind_err (map_err (\<lambda>k. bind_err (fpow (uinj ! k) (1.0 - itexp)) (\<lambda>a.
                              bind_err (fpow (uj ! k) itexp) (\<lambda>b. Inr (a * b))))
                 [0..<length uinj]) (\<lambda>unew.
     bind_err (mean allchange) (\<lambda>change. Inr (unew, change)))))"

function converge ::
  "(real list \<Rightarrow> error + real list) \<Rightarrow> real list \<times> real \<times> nat \<Rightarrow>
   error + (real list \<times> real \<times> nat)" where
  "converge prospero (uinj, change, it) =
     (if (change > 0.005 \<and> it < 300) \<or> it < 10
      then (case relax_step prospero uinj of Inl e \<Rightarrow> Inl e
            | Inr (unew, change') \<Rightarrow> converge prospero (unew, change', it + 1))
      else Inr (uinj, change, it))"
  by pat_completeness auto
termination
  by (relation "measure (\<lambda>(prospero, uinj, change, it). 300 - it)") auto

declare converge.simps [simp del]

text \<open>
  The state after exactly \<open>n\<close> passes through the loop body, whatever the loop test
  says, and the loop test itself.
\<close>

fun passes :: "(real list \<Rightarrow> error + real list) \<Rightarrow> nat \<Rightarrow> real list \<times> real \<times> nat \<Rightarrow>
   error + (real list \<times> real \<times> nat)" where
  "passes prospero 0 st = Inr st"
| "passes prospero (Suc n) (uinj, change, it) =
     (case relax_step prospero uinj of Inl e \<Rightarrow> Inl e
      | Inr (unew, change') \<Rightarrow> passes prospero n (unew, change', it + 1))"

fun keeps_going :: "real list \<times> real \<times> nat \<Rightarrow> bool" where
  "keeps_going (uinj, change, it) \<longleftrightarrow> (change > 0.005 \<and> it < 300) \<or> it < 10"

text \<open>\<open>changemodels = np.ones(nmods)\<close> and \<open>it = 0\<close> when the loop of a model starts.\<close>

definition converge_model ::
  "(real list \<Rightarrow> error + real list) \<Rightarrow> real list \<Rightarrow> error + (real list \<times> real \<times> nat)" where
  "converge_model prospero u1j = converge prospero (u1j, 1, 0)"


text \<open>A stand-in for \<open>prospero\<close> that returns the velocity it is given.\<close>

definition prospero_fixed :: "real list \<Rightarrow> error + real list" where
  "prospero_fixed uinj = Inr uinj"


subsection \<open>The running integral of \<open>waveaction\<close>\<close>

text \<open>
  The loop that fills \<open>intRS[j,:]\<close> in \<open>waveaction\<close>, for the row \<open>RS[j,:]\<close>, with
  \<open>steps = len(r)\<close>.
\<close>

fun intRS_loop :: "real list \<Rightarrow> real list \<Rightarrow> nat list \<Rightarrow> real list \<Rightarrow> error + real list" where
  "intRS_loop r RSj [] intRS = Inr intRS"
| "intRS_loop r RSj (i # is) intRS =
     bind_err (rk4 (intRS ! i) (r ! i) (r ! (i + 1) - r ! i) r (Plain RSj)) (\<lambda>v.
       intRS_loop r RSj is (intRS[i + 1 := v]))"

definition intRS_row :: "real list \<Rightarrow> real list \<Rightarrow> error + real list" where
  "intRS_row r RSj =
     (let steps = length r in
      if steps < 2 \<or> length RSj < 2 then Inl IndexError
      else intRS_loop r RSj [0..<steps - 1]
             ((replicate steps 0)[0 := ((RSj ! 1 + RSj ! 0) / 2) * (r ! 1 - r ! 0)]))"

subsection \<open>Auxiliary notions for the statements below\<close>






text \<open>
  The 4-point test of the claim for one model's own profile, and the array \<open>rootflag\<close>
  after the first \<open>m\<close> passes of the loop over the models.
\<close>

definition candidate :: "nat \<Rightarrow> real list \<Rightarrow> nat \<Rightarrow> bool" where
  "candidate nsteps rhsj k \<longleftrightarrow> 1 \<le> k \<and> k + 3 \<le> nsteps \<and> signchange rhsj k"

definition flags_seen :: "nat \<Rightarrow> real list list \<Rightarrow> nat \<Rightarrow> real list" where
  "flags_seen nsteps rhs m =
     fold (\<lambda>j. flag_roots (rhs ! j) [1..<nsteps - 2]) [0..<m] (replicate nsteps 0)"

definition locate_init :: "nat \<Rightarrow> nat \<Rightarrow> locator" where
  "locate_init nsteps nmods =
     \<lparr>rootflag = replicate nsteps 0, badflag = 0, icrit = replicate nmods 0, printed = []\<rparr>"







section \<open>Properties\<close>

subsection \<open>Interpolation and the integrator\<close>

text \<open>The equations that evaluate \<open>rk4\<close> on concrete arguments.\<close>

lemmas rk4_eval = rk4_def rk4_with_def rk4_run_def rk4_passes_def rk4_init_def
  rk4_loop.simps rk4_substep_def fdiv_def interp_def adaptiveconstant_def Let_def















text \<open>Which exceptions \<open>rk4\<close> can raise.\<close>

lemma dfdrval_not_unbound: "dfdrval uval rval rarray dfdr \<noteq> Inl UnboundLocalError"
  by (cases dfdr) (auto simp: interp_def fdiv_def split: sum.splits)

lemma rk4_substep_not_unbound:
  assumes "\<And>y x. sl y x \<noteq> Inl UnboundLocalError"
  shows "rk4_substep sl dr s \<noteq> Inl UnboundLocalError"
proof
  assume a: "rk4_substep sl dr s = Inl UnboundLocalError"
  have f: "fdiv a b \<noteq> Inl UnboundLocalError" for a b by (simp add: fdiv_def)
  from a show False
    unfolding rk4_substep_def Let_def
    using assms f by (auto split: sum.splits)
qed

lemma rk4_substep_ff: "rk4_substep sl dr s = Inr s' \<Longrightarrow> ff s' \<noteq> None"
  unfolding rk4_substep_def Let_def by (auto split: sum.splits)

lemma rk4_loop_not_unbound:
  "(\<And>y x. sl y x \<noteq> Inl UnboundLocalError) \<Longrightarrow> rk4_loop sl dr s \<noteq> Inl UnboundLocalError"
proof (induction sl dr s rule: rk4_loop.induct)
  case (1 sl dr s)
  show ?case
  proof (cases "\<bar>stepstotal s\<bar> < \<bar>dr\<bar>")
    case False
    then show ?thesis by (simp add: rk4_loop.simps)
  next
    case True
    show ?thesis
    proof (cases "rk4_substep sl dr s")
      case (Inl e)
      then have "e \<noteq> UnboundLocalError"
        using rk4_substep_not_unbound[of sl dr s] "1.prems" by auto
      then show ?thesis using True Inl by (simp add: rk4_loop.simps)
    next
      case (Inr s')
      have "rk4_loop sl dr s' \<noteq> Inl UnboundLocalError"
        using "1.IH"[OF True Inr] "1.prems" by blast
      then show ?thesis using True Inr by (simp add: rk4_loop.simps[of sl dr s])
    qed
  qed
qed

lemma rk4_loop_ff:
  "rk4_loop sl dr s = Inr s' \<Longrightarrow> ff s \<noteq> None \<or> \<bar>stepstotal s\<bar> < \<bar>dr\<bar> \<Longrightarrow> ff s' \<noteq> None"
proof (induction sl dr s rule: rk4_loop.induct)
  case (1 sl dr s)
  show ?case
  proof (cases "\<bar>stepstotal s\<bar> < \<bar>dr\<bar>")
    case False
    then show ?thesis using "1.prems" by (simp add: rk4_loop.simps)
  next
    case True
    then obtain s1 where s1: "rk4_substep sl dr s = Inr s1" "rk4_loop sl dr s1 = Inr s'"
      using "1.prems" by (auto simp: rk4_loop.simps[of sl dr s] split: sum.splits)
    show ?thesis using "1.IH"[OF True s1(1) s1(2)] rk4_substep_ff[OF s1(1)] by blast
  qed
qed

lemma rk4_with_not_unbound:
  assumes "\<And>y x. sl y x \<noteq> Inl UnboundLocalError" and "dr \<noteq> 0"
  shows "rk4_with sl fi ri dr \<noteq> Inl UnboundLocalError"
proof (cases "rk4_loop sl dr (rk4_init fi ri)")
  case (Inl e)
  then have "e \<noteq> UnboundLocalError"
    using rk4_loop_not_unbound[of sl dr "rk4_init fi ri"] assms(1) by auto
  then show ?thesis using Inl by (simp add: rk4_with_def)
next
  case (Inr s)
  have "\<bar>stepstotal (rk4_init fi ri)\<bar> < \<bar>dr\<bar>" using assms(2) by (simp add: rk4_init_def)
  then have "ff s \<noteq> None" using rk4_loop_ff[OF Inr] by blast
  then show ?thesis using Inr by (auto simp: rk4_with_def)
qed

lemma rk4_not_unbound: "dr \<noteq> 0 \<Longrightarrow> rk4 fi ri dr r dfdr \<noteq> Inl UnboundLocalError"
  unfolding rk4_def by (rule rk4_with_not_unbound) (simp_all add: dfdrval_not_unbound)

lemma rk4_zero: "rk4 fi ri 0 r dfdr = Inl UnboundLocalError"
  by (simp add: rk4_def rk4_with_def rk4_init_def rk4_loop.simps)

subsection \<open>Sequencing\<close>

lemma bind_err_eq_Inr [simp]:
  "bind_err m f = Inr y \<longleftrightarrow> (\<exists>x. m = Inr x \<and> f x = Inr y)"
  by (cases m) auto

lemma bind_err_eq_Inl:
  "bind_err m f = Inl e \<longleftrightarrow> m = Inl e \<or> (\<exists>x. m = Inr x \<and> f x = Inl e)"
  by (cases m) auto

subsection \<open>The callers of the integrator on a strictly increasing grid\<close>

lemma strict_grid_step:
  "sorted_wrt (<) r \<Longrightarrow> Suc k < length r \<Longrightarrow> r ! Suc k - r ! k \<noteq> (0::real)"
  using sorted_wrt_nth_less[of "(<)" r k "Suc k"] by simp

lemma intRS_loop_not_unbound:
  "sorted_wrt (<) r \<Longrightarrow> \<forall>i \<in> set is. Suc i < length r \<Longrightarrow>
   intRS_loop r RSj is intRS \<noteq> Inl UnboundLocalError"
proof (induction "is" arbitrary: intRS)
  case Nil
  then show ?case by simp
next
  case (Cons i "is")
  have "r ! (i + 1) - r ! i \<noteq> 0" using strict_grid_step[of r i] Cons.prems by simp
  then have "rk4 (intRS ! i) (r ! i) (r ! (i + 1) - r ! i) r (Plain RSj) \<noteq> Inl UnboundLocalError"
    by (rule rk4_not_unbound)
  then show ?case using Cons by (auto simp: bind_err_eq_Inl)
qed

lemma intRS_row_not_unbound:
  "sorted_wrt (<) r \<Longrightarrow> intRS_row r RSj \<noteq> Inl UnboundLocalError"
proof -
  assume srt: "sorted_wrt (<) r"
  have "\<forall>i \<in> set [0..<length r - 1]. Suc i < length r" by auto
  from intRS_loop_not_unbound[OF srt this] show ?thesis
    unfolding intRS_row_def Let_def by simp
qed

lemma F_loop_not_unbound:
  "sorted_wrt (<) r \<Longrightarrow> \<forall>k \<in> set ks. Suc k < length r \<Longrightarrow>
   F_loop r rhsj ks fnow F \<noteq> Inl UnboundLocalError"
proof (induction ks arbitrary: fnow F)
  case Nil
  then show ?case by simp
next
  case (Cons k ks)
  have "r ! (k + 1) - r ! k \<noteq> 0" using strict_grid_step[of r k] Cons.prems by simp
  then have "rk4 fnow (r ! k) (r ! (k + 1) - r ! k) r (Plain rhsj) \<noteq> Inl UnboundLocalError"
    by (rule rk4_not_unbound)
  then show ?case using Cons by (auto simp: bind_err_eq_Inl)
qed

lemma F_row_not_unbound:
  "sorted_wrt (<) r \<Longrightarrow> F_row r rhsj \<noteq> Inl UnboundLocalError"
proof -
  assume srt: "sorted_wrt (<) r"
  have "\<forall>k \<in> set [0..<length r - 1]. Suc k < length r" by auto
  from F_loop_not_unbound[OF srt this] show ?thesis
    unfolding F_row_def Let_def by simp
qed


subsection \<open>The running integral and the locator\<close>


lemma argmin_least:
  "xs \<noteq> [] \<Longrightarrow> argmin xs < length xs \<and> (\<forall>i<length xs. xs ! argmin xs \<le> xs ! i) \<and>
     (\<forall>i<argmin xs. xs ! argmin xs < xs ! i)"
proof (induction xs rule: argmin.induct)
  case 1
  then show ?case by simp
next
  case (2 x)
  then show ?case by simp
next
  case (3 x y ys)
  let ?i = "argmin (y # ys)"
  have ih: "?i < length (y # ys)" "\<forall>i<length (y # ys). (y # ys) ! ?i \<le> (y # ys) ! i"
    "\<forall>i<?i. (y # ys) ! ?i < (y # ys) ! i"
    using 3 by simp_all
  show ?case
  proof (cases "x \<le> (y # ys) ! ?i")
    case True
    then have a: "argmin (x # y # ys) = 0" by (simp add: Let_def)
    have "(x # y # ys) ! 0 \<le> (x # y # ys) ! i" if "i < length (x # y # ys)" for i
    proof (cases i)
      case 0
      then show ?thesis by simp
    next
      case (Suc i')
      then have "(y # ys) ! ?i \<le> (y # ys) ! i'" using ih(2) that by simp
      then show ?thesis using True Suc by simp
    qed
    then show ?thesis unfolding a by simp
  next
    case False
    then have a: "argmin (x # y # ys) = Suc ?i" by (simp add: Let_def)
    have le: "(x # y # ys) ! Suc ?i \<le> (x # y # ys) ! i" if "i < length (x # y # ys)" for i
    proof (cases i)
      case 0
      then show ?thesis using False by simp
    next
      case (Suc i')
      then show ?thesis using ih(2) that by simp
    qed
    have lt: "(x # y # ys) ! Suc ?i < (x # y # ys) ! i" if "i < Suc ?i" for i
    proof (cases i)
      case 0
      then show ?thesis using False by simp
    next
      case (Suc i')
      then show ?thesis using ih(3) that by simp
    qed
    show ?thesis unfolding a using ih(1) le lt by simp
  qed
qed



lemma map_err_spec:
  "map_err f xs = Inr ys \<Longrightarrow> length ys = length xs \<and> (\<forall>i<length xs. f (xs ! i) = Inr (ys ! i))"
proof (induction xs arbitrary: ys)
  case Nil
  then show ?case by simp
next
  case (Cons x xs)
  from Cons.prems obtain y ys' where y: "f x = Inr y" "map_err f xs = Inr ys'" "ys = y # ys'"
    by (auto split: sum.splits)
  show ?case using Cons.IH[OF y(2)] y by (auto simp: nth_Cons split: nat.splits)
qed

lemma flag_roots_length [simp]: "length (flag_roots rhsj ks rf) = length rf"
  by (induction ks arbitrary: rf) auto

lemma flag_roots_nth:
  "k < length rf \<Longrightarrow>
   flag_roots rhsj ks rf ! k = (if k \<in> set ks \<and> signchange rhsj k then 1 else rf ! k)"
proof (induction ks arbitrary: rf)
  case Nil
  then show ?case by simp
next
  case (Cons a ks)
  show ?case
  proof (cases "signchange rhsj a")
    case False
    then show ?thesis using Cons by auto
  next
    case True
    have "flag_roots rhsj (a # ks) rf ! k = flag_roots rhsj ks (rf[a := 1]) ! k"
      using True by simp
    also have "\<dots> = (if k \<in> set ks \<and> signchange rhsj k then 1 else (rf[a := 1]) ! k)"
      using Cons.IH[of "rf[a := 1]"] Cons.prems by simp
    also have "\<dots> = (if k \<in> set (a # ks) \<and> signchange rhsj k then 1 else rf ! k)"
      using True Cons.prems by (cases "a = k") auto
    finally show ?thesis .
  qed
qed

lemma flags_seen_length [simp]: "length (flags_seen nsteps rhs m) = nsteps"
  by (induction m) (auto simp: flags_seen_def)

lemma flags_seen_Suc:
  "flags_seen nsteps rhs (Suc m) = flag_roots (rhs ! m) [1..<nsteps - 2] (flags_seen nsteps rhs m)"
  by (simp add: flags_seen_def)


lemma flags_seen_nth:
  "k < nsteps \<Longrightarrow>
   flags_seen nsteps rhs m ! k = (if \<exists>j<m. candidate nsteps (rhs ! j) k then 1 else 0)"
proof (induction m)
  case 0
  then show ?case by (simp add: flags_seen_def)
next
  case (Suc m)
  have c: "(k \<in> set [1..<nsteps - 2] \<and> signchange (rhs ! m) k) = candidate nsteps (rhs ! m) k"
    by (auto simp: candidate_def)
  have "flags_seen nsteps rhs (Suc m) ! k =
      (if candidate nsteps (rhs ! m) k then 1 else flags_seen nsteps rhs m ! k)"
    unfolding flags_seen_Suc using Suc.prems by (simp only: flag_roots_nth flags_seen_length c)
  also have "\<dots> = (if candidate nsteps (rhs ! m) k then 1
                      else if \<exists>j<m. candidate nsteps (rhs ! j) k then 1 else 0)"
    using Suc.IH[OF Suc.prems] by simp
  also have "\<dots> = (if \<exists>j<Suc m. candidate nsteps (rhs ! j) k then 1 else 0)"
    by (auto simp: less_Suc_eq)
  finally show ?case .
qed

lemma where_positive_flags_seen:
  "where_positive (flags_seen nsteps rhs m) =
     filter (\<lambda>k. \<exists>j<m. candidate nsteps (rhs ! j) k) [0..<nsteps]"
proof -
  have "filter (\<lambda>k. flags_seen nsteps rhs m ! k > 0) [0..<nsteps] =
        filter (\<lambda>k. \<exists>j<m. candidate nsteps (rhs ! j) k) [0..<nsteps]"
  proof (rule filter_cong[OF refl])
    fix k assume "k \<in> set [0..<nsteps]"
    then have "k < nsteps" by simp
    then show "(flags_seen nsteps rhs m ! k > 0) = (\<exists>j<m. candidate nsteps (rhs ! j) k)"
      by (simp only: flags_seen_nth) simp
  qed
  then show ?thesis by (simp add: where_positive_def)
qed


lemma locate_model_fields:
  "rootflag (locate_model nsteps rhs F j st) = flag_roots (rhs ! j) [1..<nsteps - 2] (rootflag st)"
  "length (icrit (locate_model nsteps rhs F j st)) = length (icrit st)"
  "i \<noteq> j \<Longrightarrow> icrit (locate_model nsteps rhs F j st) ! i = icrit st ! i"
  "j < length (icrit st) \<Longrightarrow>
   icrit (locate_model nsteps rhs F j st) ! j =
     (let roots = where_positive (flag_roots (rhs ! j) [1..<nsteps - 2] (rootflag st))
      in if roots = [] then - 1 else int (roots ! argmin (map (\<lambda>k. F ! j ! k) roots)))"
  by (simp_all add: locate_model_def Let_def)

lemma locate_fold:
  "m \<le> nmods \<Longrightarrow>
   rootflag (fold (locate_model nsteps rhs F) [0..<m] (locate_init nsteps nmods))
     = flags_seen nsteps rhs m \<and>
   length (icrit (fold (locate_model nsteps rhs F) [0..<m] (locate_init nsteps nmods))) = nmods \<and>
   (\<forall>j<m. icrit (fold (locate_model nsteps rhs F) [0..<m] (locate_init nsteps nmods)) ! j =
      (let roots = where_positive (flags_seen nsteps rhs (Suc j))
       in if roots = [] then - 1 else int (roots ! argmin (map (\<lambda>k. F ! j ! k) roots))))"
proof (induction m)
  case 0
  then show ?case by (simp add: locate_init_def flags_seen_def)
next
  case (Suc m)
  let ?st = "fold (locate_model nsteps rhs F) [0..<m] (locate_init nsteps nmods)"
  have ih: "rootflag ?st = flags_seen nsteps rhs m" "length (icrit ?st) = nmods"
    "\<forall>j<m. icrit ?st ! j =
      (let roots = where_positive (flags_seen nsteps rhs (Suc j))
       in if roots = [] then - 1 else int (roots ! argmin (map (\<lambda>k. F ! j ! k) roots)))"
    using Suc by simp_all
  have unf: "fold (locate_model nsteps rhs F) [0..<Suc m] (locate_init nsteps nmods)
      = locate_model nsteps rhs F m ?st" by simp
  have m: "m < length (icrit ?st)" using ih(2) Suc.prems by simp
  have a: "rootflag (locate_model nsteps rhs F m ?st) = flags_seen nsteps rhs (Suc m)"
    by (simp only: locate_model_fields(1) ih(1) flags_seen_Suc)
  have b: "length (icrit (locate_model nsteps rhs F m ?st)) = nmods"
    by (simp only: locate_model_fields(2) ih(2))
  have c: "icrit (locate_model nsteps rhs F m ?st) ! j =
      (let roots = where_positive (flags_seen nsteps rhs (Suc j))
       in if roots = [] then - 1 else int (roots ! argmin (map (\<lambda>k. F ! j ! k) roots)))"
    if "j < Suc m" for j
  proof (cases "j = m")
    case True
    show ?thesis unfolding True
      by (simp only: locate_model_fields(4)[OF m] ih(1) flags_seen_Suc)
  next
    case False
    then have "j < m" using that by simp
    then show ?thesis using ih(3) locate_model_fields(3)[OF False] by simp
  qed
  show ?case unfolding unf using a b c by blast
qed

lemma locate_icrit:
  "j < length rhs \<Longrightarrow>
   icrit (locate r rhs F) ! j =
     (let roots = where_positive (flags_seen (length r) rhs (Suc j))
      in if roots = [] then - 1 else int (roots ! argmin (map (\<lambda>k. F ! j ! k) roots)))"
proof -
  assume j: "j < length rhs"
  have "icrit (locate r rhs F) =
     icrit (fold (locate_model (length r) rhs F) [0..<length rhs]
              (locate_init (length r) (length rhs)))"
    by (simp add: locate_def locate_init_def Let_def)
  then show ?thesis using locate_fold[of "length rhs" "length rhs" "length r" rhs F] j by simp
qed








subsection \<open>The outer loop\<close>


lemma passes_it:
  "passes P n (u, c, it) = Inr (u', c', it') \<Longrightarrow> it' = it + n"
proof (induction n arbitrary: u c it)
  case 0
  then show ?case by simp
next
  case (Suc n)
  from Suc.prems obtain u1 c1 where "passes P n (u1, c1, it + 1) = Inr (u', c', it')"
    by (auto split: sum.splits)
  from Suc.IH[OF this] show ?case by simp
qed

lemma converge_returns:
  "converge P st = Inr fin \<Longrightarrow>
   \<exists>d. passes P d st = Inr fin \<and> \<not> keeps_going fin \<and>
       (\<forall>m<d. \<exists>stm. passes P m st = Inr stm \<and> keeps_going stm)"
proof (induction P st rule: converge.induct)
  case (1 P uinj change it)
  show ?case
  proof (cases "keeps_going (uinj, change, it)")
    case False
    then have "fin = (uinj, change, it)" using "1.prems"
      by (auto simp: converge.simps[of P uinj change it] split: if_splits)
    then have "passes P 0 (uinj, change, it) = Inr fin \<and> \<not> keeps_going fin \<and>
       (\<forall>m<0. \<exists>stm. passes P m (uinj, change, it) = Inr stm \<and> keeps_going stm)"
      using False by simp
    then show ?thesis by blast
  next
    case True
    then have cond: "(change > 0.005 \<and> it < 300) \<or> it < 10" by simp
    from "1.prems" cond obtain unew c1 where
      step: "relax_step P uinj = Inr (unew, c1)" and
      rest: "converge P (unew, c1, it + 1) = Inr fin"
      by (auto simp: converge.simps[of P uinj change it] split: sum.splits)
    from "1.IH"[OF cond step refl rest] obtain d where
      d: "passes P d (unew, c1, it + 1) = Inr fin" "\<not> keeps_going fin"
         "\<forall>m<d. \<exists>stm. passes P m (unew, c1, it + 1) = Inr stm \<and> keeps_going stm"
      by blast
    have a: "passes P (Suc d) (uinj, change, it) = Inr fin" using step d(1) by simp
    have b: "\<exists>stm. passes P m (uinj, change, it) = Inr stm \<and> keeps_going stm" if "m < Suc d" for m
    proof (cases m)
      case 0
      then show ?thesis using True by simp
    next
      case (Suc m')
      then have "m' < d" using that by simp
      then show ?thesis using d(3) step Suc by simp
    qed
    show ?thesis using a b d(2) by blast
  qed
qed

lemma converge_raises:
  "converge P st = Inl e \<Longrightarrow> \<exists>d. passes P (Suc d) st = Inl e \<and> snd (snd st) + d < 300"
proof (induction P st rule: converge.induct)
  case (1 P uinj change it)
  have cond: "(change > 0.005 \<and> it < 300) \<or> it < 10"
    using "1.prems" by (auto simp: converge.simps[of P uinj change it] split: if_splits)
  then have it: "it < 300" by auto
  show ?case
  proof (cases "relax_step P uinj")
    case (Inl e')
    then have "e' = e" using "1.prems" cond by (simp add: converge.simps[of P uinj change it])
    then have "passes P (Suc 0) (uinj, change, it) = Inl e" using Inl by simp
    then show ?thesis using it by (intro exI[of _ 0]) simp
  next
    case (Inr p)
    obtain unew c1 where p: "p = (unew, c1)" by (cases p)
    have rest: "converge P (unew, c1, it + 1) = Inl e"
      using "1.prems" cond Inr p by (simp add: converge.simps[of P uinj change it])
    from "1.IH"[OF cond Inr[unfolded p] refl rest] obtain d where
      d: "passes P (Suc d) (unew, c1, it + 1) = Inl e" "it + 1 + d < 300" by auto
    have "passes P (Suc (Suc d)) (uinj, change, it) = Inl e"
      using Inr p d(1) by simp
    then show ?thesis using d(2) by (intro exI[of _ "Suc d"]) simp
  qed
qed

lemma relax_fixed: "relax_step prospero_fixed [1] = Inr ([1], 0)"
  by (simp add: relax_step_def prospero_fixed_def mean_def fdiv_def fpow_def itexp_def)

lemma converge_fixed: "converge_model prospero_fixed [1] = Inr ([1], 0, 10)"
  by (simp add: converge_model_def converge.simps relax_fixed)

lemma passes_fixed: "passes prospero_fixed 10 ([1], 1, 0) = Inr ([1], 0, 10)"
  by (simp add: numeral_eq_Suc relax_fixed)


lemma relax_zero: "relax_step prospero_fixed [0] = Inl FloatingPointError"
  by (simp add: relax_step_def prospero_fixed_def fdiv_def)

lemma converge_zero: "converge_model prospero_fixed [0] = Inl FloatingPointError"
  by (simp add: converge_model_def converge.simps relax_zero)


subsection \<open>Finite differences and the critical slope\<close>


lemma centred_spec:
  "centred f r ks = Inr ds \<Longrightarrow>
   length ds = length ks \<and>
   (\<forall>i<length ks. ds ! i = (f ! (ks ! i + 1) - f ! (ks ! i - 1)) / (r ! (ks ! i + 1) - r ! (ks ! i - 1)))"
proof (induction ks arbitrary: ds)
  case Nil
  then show ?case by simp
next
  case (Cons k ks)
  from Cons.prems obtain d ds' where
    d: "fdiv (f ! (k + 1) - f ! (k - 1)) (r ! (k + 1) - r ! (k - 1)) = Inr d"
       "centred f r ks = Inr ds'" "ds = d # ds'"
    by (auto split: sum.splits)
  have dv: "d = (f ! (k + 1) - f ! (k - 1)) / (r ! (k + 1) - r ! (k - 1))"
    using d(1) by (auto simp: fdiv_def split: if_splits)
  show ?case using Cons.IH[OF d(2)] d(3) dv by (auto simp: nth_Cons split: nat.splits)
qed

lemma quickDeriv_row_spec:
  assumes "quickDeriv_row f r = Inr d"
  shows "length d = length r" and "length r \<le> length f"
    and "1 \<le> k \<Longrightarrow> k + 1 < length r \<Longrightarrow>
         d ! k = (f ! (k + 1) - f ! (k - 1)) / (r ! (k + 1) - r ! (k - 1))"
proof -
  from assms obtain d0 ds dl where
    len: "\<not> length r < 2" "\<not> length f < length r" and
    ds: "centred f r [1..<length r - 1] = Inr ds" and
    d: "d = d0 # ds @ [dl]"
    unfolding quickDeriv_row_def Let_def by (auto split: if_splits)
  note c = centred_spec[OF ds]
  show "length d = length r" using d c len by simp
  show "length r \<le> length f" using len by simp
  assume k: "1 \<le> k" "k + 1 < length r"
  then have k1: "k - 1 < length ds" using c by simp
  obtain k' where k': "k = Suc k'" using k(1) by (cases k) auto
  have "d ! k = ds ! (k - 1)" using d k1 unfolding k' by (simp add: nth_append)
  also have "\<dots> = (f ! (k + 1) - f ! (k - 1)) / (r ! (k + 1) - r ! (k - 1))"
    using c k k1 by simp
  finally show "d ! k = (f ! (k + 1) - f ! (k - 1)) / (r ! (k + 1) - r ! (k - 1))" .
qed

lemma getitem_nat: "k < length a \<Longrightarrow> getitem a (int k) = Inr (a ! k)"
  by (simp add: getitem_def)



lemma critSlope_model_interior:
  assumes "k < length r" "k < length ucrj" "k < length dNdrj" "k < length duCdrj"
  shows "critSlope_model r ucrj dNdrj duCdrj (int k) =
     Inr ((r ! k, ucrj ! k,
           0.5 * (duCdrj ! k + sqrt (if (duCdrj ! k)\<^sup>2 + 2 * dNdrj ! k < 0 then 0
                                      else (duCdrj ! k)\<^sup>2 + 2 * dNdrj ! k))),
          if (duCdrj ! k)\<^sup>2 + 2 * dNdrj ! k \<le> 0
          then [''invalid value encountered in sqrt, set to 0''] else [])"
  using assms by (auto simp: critSlope_model_def getitem_nat Let_def)


lemma map_err_total:
  "(\<And>x. x \<in> set xs \<Longrightarrow> \<exists>y. f x = Inr y) \<Longrightarrow> \<exists>ys. map_err f xs = Inr ys"
proof (induction xs)
  case Nil
  then show ?case by simp
next
  case (Cons x xs)
  from Cons.prems[of x] obtain y where y: "f x = Inr y" by auto
  from Cons.IH Cons.prems obtain ys where "map_err f xs = Inr ys" by auto
  then show ?case using y by simp
qed

lemma quickDeriv_spec:
  assumes "quickDeriv f r = Inr d" "j < length f"
  shows "quickDeriv_row (f ! j) r = Inr (d ! j)" and "length d = length f"
  using map_err_spec[OF assms(1)[unfolded quickDeriv_def]] assms(2) by simp_all

lemma critSlope_example:
  "critSlope [0, 1, 2] [[0, 0, - 4]] [[1, 1, 1]] [1]
     = Inr ([(1, 1, 0)], [''invalid value encountered in sqrt, set to 0''])"
  by (simp add: critSlope_def quickDeriv_def quickDeriv_row_def critSlope_model_def getitem_def
      fdiv_def upt_conv_Cons Let_def)

lemma quickDeriv_example:
  "quickDeriv [[0, 0, - 4]] [0, 1, 2] = Inr [[0, - 2, - 4]]"
  "quickDeriv [[1, 1, 1]] [0, 1, 2] = Inr [[0, 0, 0]]"
  by (simp_all add: quickDeriv_def quickDeriv_row_def fdiv_def upt_conv_Cons Let_def)


subsection \<open>Mass-flux conservation\<close>


lemma rhoTR_pos: "0 < rhoTR z"
  by (simp add: rhoTR_def)

lemma massflux_row_spec:
  assumes "massflux_row r Bj Tj zTRj uj = Inr rhoj"
  shows "r \<noteq> []" and "length rhoj = length r"
    and "Bj ! iTR_index r zTRj \<noteq> 0"
    and "k < length r \<Longrightarrow> uj ! k \<noteq> 0 \<and>
         rhoj ! k = (rhoTR zTRj * uj ! iTR_index r zTRj / Bj ! iTR_index r zTRj) * (Bj ! k / uj ! k)"
proof -
  from assms obtain c q where
    ne: "r \<noteq> []" and
    c: "fdiv (rhoTR zTRj * uj ! iTR_index r zTRj) (Bj ! iTR_index r zTRj) = Inr c" and
    q: "map_err (\<lambda>k. fdiv (Bj ! k) (uj ! k)) [0..<length r] = Inr q" and
    rho: "rhoj = map (\<lambda>x. c * x) q"
    unfolding massflux_row_def Let_def by (auto split: if_splits)
  note qs = map_err_spec[OF q]
  show "r \<noteq> []" by (rule ne)
  show "length rhoj = length r" using rho qs by simp
  show B0: "Bj ! iTR_index r zTRj \<noteq> 0" using c by (auto simp: fdiv_def split: if_splits)
  have cv: "c = rhoTR zTRj * uj ! iTR_index r zTRj / Bj ! iTR_index r zTRj"
    using c by (auto simp: fdiv_def split: if_splits)
  assume k: "k < length r"
  then have "fdiv (Bj ! k) (uj ! k) = Inr (q ! k)" using qs by simp
  then have "uj ! k \<noteq> 0" "q ! k = Bj ! k / uj ! k" by (auto simp: fdiv_def split: if_splits)
  then show "uj ! k \<noteq> 0 \<and>
         rhoj ! k = (rhoTR zTRj * uj ! iTR_index r zTRj / Bj ! iTR_index r zTRj) * (Bj ! k / uj ! k)"
    using rho qs k cv by simp
qed

lemma alfven_row_spec:
  assumes "alfven_row Bj rhoj = Inr VAj" "k < length rhoj"
  shows "0 < rhoj ! k"
proof -
  from map_err_spec[OF assms(1)[unfolded alfven_row_def]] assms(2)
  have "bind_err (fsqrt (4 * pi * rhoj ! k)) (\<lambda>s. fdiv (Bj ! k) s) = Inr (VAj ! k)" by simp
  then obtain s where s: "fsqrt (4 * pi * rhoj ! k) = Inr s" "fdiv (Bj ! k) s = Inr (VAj ! k)"
    by auto
  from s(1) have "0 \<le> 4 * pi * rhoj ! k" "s = sqrt (4 * pi * rhoj ! k)"
    by (auto simp: fsqrt_def split: if_splits)
  moreover from s(2) have "s \<noteq> 0" by (auto simp: fdiv_def split: if_splits)
  ultimately have nn: "0 \<le> 4 * pi * rhoj ! k" and nz: "4 * pi * rhoj ! k \<noteq> 0" by auto
  have p4: "0 < 4 * pi" using pi_gt_zero by simp
  have "0 \<le> rhoj ! k"
  proof (rule ccontr)
    assume "\<not> 0 \<le> rhoj ! k"
    then have "rhoj ! k < 0" by simp
    with p4 have "(4 * pi) * rhoj ! k < 0" by (rule mult_pos_neg)
    then show False using nn by simp
  qed
  moreover have "rhoj ! k \<noteq> 0" using nz by auto
  ultimately show ?thesis by simp
qed

lemma iTR_nearest:
  assumes "r \<noteq> []"
  shows "iTR_index r z < length r"
    and "i < length r \<Longrightarrow>
         \<bar>(r ! iTR_index r z / Rsun - 1.0) - z\<bar> \<le> \<bar>(r ! i / Rsun - 1.0) - z\<bar>"
proof -
  let ?d = "map (\<lambda>x. \<bar>(x / Rsun - 1.0) - z\<bar>) r"
  have ne: "?d \<noteq> []" using assms by simp
  note am = argmin_least[OF ne]
  show lt: "iTR_index r z < length r" using am by (simp add: iTR_index_def)
  assume i: "i < length r"
  have len: "length ?d = length r" by simp
  have a: "argmin ?d < length r" using am by simp
  from am have "\<forall>i<length ?d. ?d ! argmin ?d \<le> ?d ! i" by blast
  then have "?d ! argmin ?d \<le> ?d ! i" using i by (simp only: len)
  then show "\<bar>(r ! iTR_index r z / Rsun - 1.0) - z\<bar> \<le> \<bar>(r ! i / Rsun - 1.0) - z\<bar>"
    unfolding iTR_index_def nth_map[OF a] nth_map[OF i] .
qed

lemma density_example:
  "fullRHS_density [2 * Rsun, 3 * Rsun] [[1, 2]] [[0, 0]] [1] [[1, 4]]
     = Inr ([[rhoTR 1, rhoTR 1 / 2]],
            [[1 / sqrt (4 * pi * rhoTR 1), 2 / sqrt (4 * pi * (rhoTR 1 / 2))]])"
proof -
  have i: "iTR_index [2 * Rsun, 3 * Rsun] 1 = 0"
    by (simp add: iTR_index_def Rsun_def)
  have p: "0 < rhoTR 1" by (rule rhoTR_pos)
  have m: "massflux_row [2 * Rsun, 3 * Rsun] [1, 2] [0, 0] 1 [1, 4] = Inr [rhoTR 1, rhoTR 1 / 2]"
    unfolding massflux_row_def Let_def i
    by (simp add: TTR_def fdiv_def upt_conv_Cons)
  have a: "alfven_row [1, 2] [rhoTR 1, rhoTR 1 / 2]
      = Inr [1 / sqrt (4 * pi * rhoTR 1), 2 / sqrt (4 * pi * (rhoTR 1 / 2))]"
    using p by (simp add: alfven_row_def fsqrt_def fdiv_def upt_conv_Cons not_less
        mult_nonneg_nonneg less_imp_le)
  show ?thesis by (simp add: fullRHS_density_def m a)
qed


subsection \<open>The shooting propagator\<close>













subsection \<open>The sentinel\<close>

text \<open>
  When neither model \<open>j\<close> nor an earlier model of the batch has a candidate index, model
  \<open>j\<close> is marked with \<open>-1\<close> and the warning is printed; \<open>critSlope\<close> skips the index \<open>-1\<close>, and
  the last loop of \<open>outflows\<close> leaves the profile of such a model at zero without calling
  \<open>slope2curve\<close>.
\<close>

lemma locate_model_printed:
  "set (printed st) \<subseteq> set (printed (locate_model nsteps rhs F j st))"
  "where_positive (flag_roots (rhs ! j) [1..<nsteps - 2] (rootflag st)) = [] \<Longrightarrow>
   ''CAUTION: No critical point for model'' \<in> set (printed (locate_model nsteps rhs F j st))"
  by (auto simp: locate_model_def Let_def)

lemma locate_fold_printed:
  "m \<le> nmods \<Longrightarrow> j < m \<Longrightarrow> where_positive (flags_seen nsteps rhs (Suc j)) = [] \<Longrightarrow>
   ''CAUTION: No critical point for model''
     \<in> set (printed (fold (locate_model nsteps rhs F) [0..<m] (locate_init nsteps nmods)))"
proof (induction m)
  case 0
  then show ?case by simp
next
  case (Suc m)
  let ?st = "fold (locate_model nsteps rhs F) [0..<m] (locate_init nsteps nmods)"
  have unf: "fold (locate_model nsteps rhs F) [0..<Suc m] (locate_init nsteps nmods)
      = locate_model nsteps rhs F m ?st" by simp
  have m: "m \<le> nmods" using Suc.prems(1) by simp
  show ?case
  proof (cases "j = m")
    case True
    have "rootflag ?st = flags_seen nsteps rhs m" using locate_fold[OF m] by blast
    then have "where_positive (flag_roots (rhs ! m) [1..<nsteps - 2] (rootflag ?st)) = []"
      using Suc.prems(3) True by (simp add: flags_seen_Suc)
    then show ?thesis unfolding unf by (rule locate_model_printed(2))
  next
    case False
    then have "j < m" using Suc.prems(2) by simp
    from Suc.IH[OF m this Suc.prems(3)] show ?thesis
      unfolding unf using locate_model_printed(1) by blast
  qed
qed

lemma locate_sentinel:
  assumes "j < length rhs" and "\<forall>i\<le>j. \<forall>k. \<not> candidate (length r) (rhs ! i) k"
  shows "icrit (locate r rhs F) ! j = - 1"
    and "''CAUTION: No critical point for model'' \<in> set (printed (locate r rhs F))"
proof -
  have "filter (\<lambda>k. \<exists>i<Suc j. candidate (length r) (rhs ! i) k) [0..<length r] = []"
    using assms(2) by (auto simp: less_Suc_eq_le)
  then have e: "where_positive (flags_seen (length r) rhs (Suc j)) = []"
    by (simp only: where_positive_flags_seen)
  show "icrit (locate r rhs F) ! j = - 1"
    using locate_icrit[OF assms(1), of r F] e by (simp add: Let_def)
  have "''CAUTION: No critical point for model''
     \<in> set (printed (fold (locate_model (length r) rhs F) [0..<length rhs]
                        (locate_init (length r) (length rhs))))"
    using locate_fold_printed[OF le_refl assms(1) e] .
  then show "''CAUTION: No critical point for model'' \<in> set (printed (locate r rhs F))"
    by (simp add: locate_def locate_init_def Let_def)
qed

lemma critSlope_model_sentinel:
  "critSlope_model r ucrj dNdrj duCdrj (- 1) = Inr ((0, 0, 0), [])"
  by (simp add: critSlope_model_def)

lemma outflow_model_sentinel:
  "indexcrit ! j = - 1 \<Longrightarrow>
   outflow_model r rhs ucr indexcrit cplus cminus j = Inr ((replicate (length r) 0, 0), [])"
  by (simp add: outflow_model_def split: prod.splits)


section \<open>The claims\<close>

text \<open>
  Claim C1.  The claim says that every sub-step of \<open>rk4\<close> advances the value by the
  weighted combination of four slopes, each scaled by that sub-step's own step size
  \<open>deltar\<close>.  The source scales the four slopes by the whole travel distance \<open>dr\<close>
  (\<^verbatim>\<open>pk1 = dr*dfdrval(...)\<close>), in every sub-step.  With the constant slope 1, starting
  value 1 and distance 1 the loop takes four sub-steps of lengths 0.1, 0.2, 0.3, 0.4,
  each of which adds \<open>dr \<cdot> 1 = 1\<close>: the result is 5, where the value at \<open>ri + dr\<close>
  promised by the docstring is 2.
\<close>

theorem rk4_scales_by_total_distance:
  "rk4 1 0 1 [0, 1] (Plain [1, 1]) = Inr 5"
  by (simp add: rk4_eval)




text \<open>
  Claim C10.  With travel distance 0 the loop body of \<open>rk4\<close> never runs, \<open>ff\<close> is never
  assigned and \<^verbatim>\<open>return ff\<close> raises \<^verbatim>\<open>UnboundLocalError\<close>; in particular the starting
  value is not returned.  With any other distance this exception cannot occur.  The
  callers pass the difference of two neighbouring radii, which is not zero on a strictly
  increasing grid: there the running integrals of \<open>waveaction\<close> and of \<open>outflows\<close> never
  raise it.
\<close>

theorem rk4_zero_distance:
  "rk4 fi ri 0 r dfdr = Inl UnboundLocalError \<and>
   rk4 fi ri 0 r dfdr \<noteq> Inr fi \<and>
   (dr \<noteq> 0 \<longrightarrow> rk4 fi ri dr r dfdr \<noteq> Inl UnboundLocalError) \<and>
   (sorted_wrt (<) r \<longrightarrow>
      intRS_row r RSj \<noteq> Inl UnboundLocalError \<and> F_row r rhsj \<noteq> Inl UnboundLocalError)"
  using rk4_zero[of fi ri r dfdr] rk4_not_unbound[of dr fi ri r dfdr]
    intRS_row_not_unbound[of r RSj] F_row_not_unbound[of r rhsj]
  by simp

theorem rk4_zero_distance_witness:
  "rk4 1 0 0 [0, 1] (Plain [1, 1]) = Inl UnboundLocalError \<and>
   (1::real) \<noteq> 0 \<and> rk4 1 0 1 [0, 1] (Plain [1, 1]) \<noteq> Inl UnboundLocalError \<and>
   sorted_wrt (<) [0, 1 :: real] \<and>
   intRS_row [0, 1] [1, 1] \<noteq> Inl UnboundLocalError \<and>
   F_row [0, 1] [1, 1] \<noteq> Inl UnboundLocalError"
  using rk4_zero_distance[of 1 0 "[0, 1]" "Plain [1, 1]" 1 "[1, 1]" "[1, 1]"]
  by simp






text \<open>
  Claim C2.  The claim says that the candidates of model \<open>j\<close> are decided by that model's
  own RHS profile.  The source creates \<open>rootflag\<close> once, before the loop over the models,
  and never clears it, so a flag set for one model stays set for every later model.  In
  the batch below the second model has a positive RHS everywhere and so no sign change,
  but index 1, flagged for the first model, is among the roots examined for it.
\<close>

theorem outflows_rootflag_carried_over:
  "where_positive (rootflag (locate [0, 1, 2, 3, 4]
      [[- 1 / 100, - 1 / 100, 1 / 100, 1 / 100, 1 / 100],
       [1 / 100, 1 / 100, 1 / 100, 1 / 100, 1 / 100]]
      [[1, 99 / 100, 99 / 100, 1, 101 / 100],
       [1, 101 / 100, 102 / 100, 103 / 100, 104 / 100]])) = [1] \<and>
   \<not> candidate 5 [1 / 100, 1 / 100, 1 / 100, 1 / 100, 1 / 100] 1 \<and>
   \<not> candidate 5 [1 / 100, 1 / 100, 1 / 100, 1 / 100, 1 / 100] 2"
  by (simp add: locate_def locate_model_def where_positive_def signchange_def candidate_def
      upt_conv_Cons Let_def)

text \<open>
  Claim C9.  The claim says that a model without a candidate index is marked with the
  sentinel \<open>-1\<close> and a warning is printed.  Because of the flags carried over from earlier
  models (see C2), this happens only when no earlier model of the batch had a candidate.
  In the same batch as above the second model has no candidate of its own, yet its
  \<open>icrit\<close> is 1, not \<open>-1\<close>, and nothing is printed.
\<close>

theorem outflows_sentinel_missed:
  "map_err (F_row [0, 1, 2, 3, 4])
      [[- 1 / 100, - 1 / 100, 1 / 100, 1 / 100, 1 / 100],
       [1 / 100, 1 / 100, 1 / 100, 1 / 100, 1 / 100]]
     = Inr [[1, 99 / 100, 99 / 100, 1, 101 / 100],
            [1, 101 / 100, 102 / 100, 103 / 100, 104 / 100]] \<and>
   where_positive (flag_roots [1 / 100, 1 / 100, 1 / 100, 1 / 100, 1 / 100] [1..<5 - 2]
      (replicate 5 0)) = [] \<and>
   icrit (locate [0, 1, 2, 3, 4]
      [[- 1 / 100, - 1 / 100, 1 / 100, 1 / 100, 1 / 100],
       [1 / 100, 1 / 100, 1 / 100, 1 / 100, 1 / 100]]
      [[1, 99 / 100, 99 / 100, 1, 101 / 100],
       [1, 101 / 100, 102 / 100, 103 / 100, 104 / 100]]) = [1, 1] \<and>
   printed (locate [0, 1, 2, 3, 4]
      [[- 1 / 100, - 1 / 100, 1 / 100, 1 / 100, 1 / 100],
       [1 / 100, 1 / 100, 1 / 100, 1 / 100, 1 / 100]]
      [[1, 99 / 100, 99 / 100, 1, 101 / 100],
       [1, 101 / 100, 102 / 100, 103 / 100, 104 / 100]]) = []"
proof -
  have F: "map_err (F_row [0, 1, 2, 3, 4])
      [[- 1 / 100, - 1 / 100, 1 / 100, 1 / 100, 1 / 100],
       [1 / 100, 1 / 100, 1 / 100, 1 / 100, 1 / 100]]
     = Inr [[1, 99 / 100, 99 / 100, 1, 101 / 100],
            [1, 101 / 100, 102 / 100, 103 / 100, 104 / 100]]"
    by (simp add: rk4_eval F_row_def upt_conv_Cons)
  show ?thesis
    unfolding F
    by (simp add: locate_def locate_model_def where_positive_def signchange_def
        upt_conv_Cons Let_def)
qed

text \<open>
  Claim C5.  The loop that \<open>main\<close> runs for one model is a total function of its state,
  for whatever \<open>prospero\<close> computes.  When it returns, it has made \<open>n\<close> passes with
  \<open>10 \<le> n \<le> 300\<close>, the metric is at most 0.005 or \<open>n\<close> is 300, and after every earlier
  number of passes from 10 on the metric was still above 0.005: the loop is left at the
  first opportunity, and never before the tenth pass.  The velocity returned is the
  relaxed guess of the last pass, also when the cap of 300 is reached.  The only other
  way out is an exception raised by one of the first 300 passes.
\<close>

theorem converge_floor_and_cap:
  "(converge_model prospero u1j = Inr (u, c, n) \<longrightarrow>
      passes prospero n (u1j, 1, 0) = Inr (u, c, n) \<and> 10 \<le> n \<and> n \<le> 300 \<and>
      (c \<le> 0.005 \<or> n = 300) \<and>
      (\<forall>m. 10 \<le> m \<and> m < n \<longrightarrow>
         (\<exists>u' c'. passes prospero m (u1j, 1, 0) = Inr (u', c', m) \<and> 0.005 < c'))) \<and>
   (converge_model prospero u1j = Inl e \<longrightarrow>
      (\<exists>m<300. passes prospero (Suc m) (u1j, 1, 0) = Inl e))"
proof (intro conjI impI)
  assume "converge_model prospero u1j = Inl e"
  then show "\<exists>m<300. passes prospero (Suc m) (u1j, 1, 0) = Inl e"
    unfolding converge_model_def using converge_raises[of prospero "(u1j, 1, 0)" e] by auto
next
  assume a: "converge_model prospero u1j = Inr (u, c, n)"
  from converge_returns[OF a[unfolded converge_model_def]] obtain d where
    d: "passes prospero d (u1j, 1, 0) = Inr (u, c, n)" "\<not> keeps_going (u, c, n)"
       "\<forall>m<d. \<exists>stm. passes prospero m (u1j, 1, 0) = Inr stm \<and> keeps_going stm"
    by blast
  have dn: "d = n" using passes_it[OF d(1)] by simp
  have mid: "\<exists>u' c'. passes prospero m (u1j, 1, 0) = Inr (u', c', m) \<and> keeps_going (u', c', m)"
    if "m < n" for m
  proof -
    from d(3) that dn obtain stm where s: "passes prospero m (u1j, 1, 0) = Inr stm" "keeps_going stm"
      by blast
    obtain u' c' i' where stm: "stm = (u', c', i')" by (cases stm)
    have "i' = m" using passes_it[OF s(1)[unfolded stm]] by simp
    then show ?thesis using s stm by blast
  qed
  have n300: "n \<le> 300"
  proof (rule ccontr)
    assume "\<not> n \<le> 300"
    then have "300 < n" by simp
    from mid[OF this] show False by simp
  qed
  show "passes prospero n (u1j, 1, 0) = Inr (u, c, n)" using d(1) dn by simp
  show "10 \<le> n" using d(2) by auto
  show "n \<le> 300" by (rule n300)
  show "c \<le> 0.005 \<or> n = 300" using d(2) n300 by auto
  show "\<forall>m. 10 \<le> m \<and> m < n \<longrightarrow>
         (\<exists>u' c'. passes prospero m (u1j, 1, 0) = Inr (u', c', m) \<and> 0.005 < c')"
  proof (intro allI impI)
    fix m assume m: "10 \<le> m \<and> m < n"
    then obtain u' c' where s: "passes prospero m (u1j, 1, 0) = Inr (u', c', m)"
      "keeps_going (u', c', m)" using mid by blast
    then have "0.005 < c'" using m by auto
    then show "\<exists>u' c'. passes prospero m (u1j, 1, 0) = Inr (u', c', m) \<and> 0.005 < c'"
      using s(1) by blast
  qed
qed


theorem converge_floor_and_cap_witness:
  "converge_model prospero_fixed [1] = Inr ([1], 0, 10) \<and>
   passes prospero_fixed 10 ([1], 1, 0) = Inr ([1], 0, 10) \<and>
   converge_model prospero_fixed [0] = Inl FloatingPointError \<and>
   (\<exists>m<300. passes prospero_fixed (Suc m) ([0], 1, 0) = Inl FloatingPointError)"
  using converge_floor_and_cap[of prospero_fixed "[1]" "[1]" 0 10 FloatingPointError]
    converge_floor_and_cap[of prospero_fixed "[0]" "[1]" 0 10 FloatingPointError]
    converge_fixed converge_zero
  by simp

text \<open>
  Claim C7.  A bracketing index of a valid critical index is an interior index \<open>k\<close> of
  the grid (\<open>1 \<le> k\<close> and \<open>k + 1 < len(r)\<close>).  There \<open>critSlope\<close> returns the radius \<open>r[k]\<close>,
  the critical speed \<open>ucr[j,k]\<close> and the slope \<open>0.5 \<cdot> (duC/dr + sqrt((duC/dr)\<^sup>2 + 2 \<cdot> dN/dr))\<close>
  with the centred differences of \<open>rhs[j,:]\<close> and \<open>ucr[j,:]\<close> at \<open>k\<close>, a negative radicand
  being replaced by 0 with the warning printed.  The sign of the radicand never makes
  \<open>critSlope\<close> fail: once the two derivative arrays are computed and every index is
  \<open>-1\<close> or inside the grid, it returns normally.
\<close>

theorem critSlope_closed_form:
  "(critSlope r rhs ucr indexcrit = Inr (res, out) \<and> length ucr = length rhs \<and>
    j < length rhs \<and> indexcrit ! j = int k \<and> 1 \<le> k \<and> k + 1 < length r \<longrightarrow>
      (let dNdr = (rhs ! j ! (k + 1) - rhs ! j ! (k - 1)) / (r ! (k + 1) - r ! (k - 1));
           duCdr = (ucr ! j ! (k + 1) - ucr ! j ! (k - 1)) / (r ! (k + 1) - r ! (k - 1));
           radicand = duCdr\<^sup>2 + 2 * dNdr
       in res ! j = (r ! k, ucr ! j ! k,
                     0.5 * (duCdr + sqrt (if radicand < 0 then 0 else radicand))) \<and>
          (radicand < 0 \<longrightarrow> ''invalid value encountered in sqrt, set to 0'' \<in> set out))) \<and>
   (quickDeriv rhs r = Inr dN \<and> quickDeriv ucr r = Inr duC \<and> length ucr = length rhs \<and>
    (\<forall>j<length rhs. - 1 \<le> indexcrit ! j \<and> indexcrit ! j < int (length r)) \<longrightarrow>
      (\<exists>res out. critSlope r rhs ucr indexcrit = Inr (res, out)))"
proof (intro conjI impI)
  assume a: "critSlope r rhs ucr indexcrit = Inr (res, out) \<and> length ucr = length rhs \<and>
    j < length rhs \<and> indexcrit ! j = int k \<and> 1 \<le> k \<and> k + 1 < length r"
  then obtain dNdr duCdr rs where
    dN: "quickDeriv rhs r = Inr dNdr" and duC: "quickDeriv ucr r = Inr duCdr" and
    rs: "map_err (\<lambda>j. critSlope_model r (ucr ! j) (dNdr ! j) (duCdr ! j) (indexcrit ! j))
           [0..<length rhs] = Inr rs" and
    res: "res = map fst rs" and
    out: "out = concat (map snd rs) @ (if length rhs > 1 then [''range of slopes:''] else [])"
    unfolding critSlope_def by auto
  from a have j: "j < length rhs" "j < length ucr" and ik: "indexcrit ! j = int k"
    and k: "1 \<le> k" "k + 1 < length r" by simp_all
  note qN = quickDeriv_row_spec[OF quickDeriv_spec(1)[OF dN j(1)]]
  note qC = quickDeriv_row_spec[OF quickDeriv_spec(1)[OF duC j(2)]]
  have kl: "k < length r" "k < length (ucr ! j)" "k < length (dNdr ! j)" "k < length (duCdr ! j)"
    using k qN(1) qC(1) qC(2) by simp_all
  have lrs: "length rs = length rhs" using map_err_spec[OF rs] by simp
  have "critSlope_model r (ucr ! j) (dNdr ! j) (duCdr ! j) (indexcrit ! j) = Inr (rs ! j)"
    using map_err_spec[OF rs] j(1) by simp
  then have rsj: "critSlope_model r (ucr ! j) (dNdr ! j) (duCdr ! j) (int k) = Inr (rs ! j)"
    unfolding ik .
  note m = critSlope_model_interior[OF kl]
  have dNk: "dNdr ! j ! k = (rhs ! j ! (k + 1) - rhs ! j ! (k - 1)) / (r ! (k + 1) - r ! (k - 1))"
    using qN(3)[OF k] .
  have dCk: "duCdr ! j ! k = (ucr ! j ! (k + 1) - ucr ! j ! (k - 1)) / (r ! (k + 1) - r ! (k - 1))"
    using qC(3)[OF k] .
  have fstj: "res ! j = fst (rs ! j)" using res lrs j(1) by simp
  have "rs ! j \<in> set rs" using lrs j(1) by simp
  then have "set (snd (rs ! j)) \<subseteq> set (concat (map snd rs))" by auto
  then have sndj: "set (snd (rs ! j)) \<subseteq> set out" unfolding out by auto
  show "let dNdr = (rhs ! j ! (k + 1) - rhs ! j ! (k - 1)) / (r ! (k + 1) - r ! (k - 1));
           duCdr = (ucr ! j ! (k + 1) - ucr ! j ! (k - 1)) / (r ! (k + 1) - r ! (k - 1));
           radicand = duCdr\<^sup>2 + 2 * dNdr
       in res ! j = (r ! k, ucr ! j ! k,
                     0.5 * (duCdr + sqrt (if radicand < 0 then 0 else radicand))) \<and>
          (radicand < 0 \<longrightarrow> ''invalid value encountered in sqrt, set to 0'' \<in> set out)"
    unfolding Let_def dNk[symmetric] dCk[symmetric]
    using m rsj fstj sndj by (auto simp del: set_concat)
next
  assume a: "quickDeriv rhs r = Inr dN \<and> quickDeriv ucr r = Inr duC \<and> length ucr = length rhs \<and>
    (\<forall>j<length rhs. - 1 \<le> indexcrit ! j \<and> indexcrit ! j < int (length r))"
  then have dN: "quickDeriv rhs r = Inr dN" and duC: "quickDeriv ucr r = Inr duC"
    and len: "length ucr = length rhs" by simp_all
  have "\<exists>y. critSlope_model r (ucr ! j) (dN ! j) (duC ! j) (indexcrit ! j) = Inr y"
    if "j \<in> set [0..<length rhs]" for j
  proof -
    from that have j: "j < length rhs" "j < length ucr" using len by simp_all
    note qN = quickDeriv_row_spec[OF quickDeriv_spec(1)[OF dN j(1)]]
    note qC = quickDeriv_row_spec[OF quickDeriv_spec(1)[OF duC j(2)]]
    from a j have rng: "- 1 \<le> indexcrit ! j" "indexcrit ! j < int (length r)" by simp_all
    show ?thesis
    proof (cases "indexcrit ! j = - 1")
      case True
      then show ?thesis by (simp add: critSlope_model_def)
    next
      case False
      then obtain k where k: "indexcrit ! j = int k" using rng(1) by (cases "indexcrit ! j") auto
      then have "k < length r" using rng(2) by simp
      then have kl: "k < length r" "k < length (ucr ! j)" "k < length (dN ! j)" "k < length (duC ! j)"
        using qN(1) qC(1) qC(2) by simp_all
      show ?thesis unfolding k critSlope_model_interior[OF kl] by blast
    qed
  qed
  from map_err_total[of "[0..<length rhs]"
      "\<lambda>j. critSlope_model r (ucr ! j) (dN ! j) (duC ! j) (indexcrit ! j)", OF this]
  obtain rs where "map_err (\<lambda>j. critSlope_model r (ucr ! j) (dN ! j) (duC ! j) (indexcrit ! j))
      [0..<length rhs] = Inr rs" by blast
  then show "\<exists>res out. critSlope r rhs ucr indexcrit = Inr (res, out)"
    unfolding critSlope_def using dN duC by simp
qed


theorem critSlope_closed_form_witness:
  "critSlope [0, 1, 2] [[0, 0, - 4]] [[1, 1, 1]] [1]
     = Inr ([(1, 1, 0)], [''invalid value encountered in sqrt, set to 0'']) \<and>
   quickDeriv [[0, 0, - 4]] [0, 1, 2] = Inr [[0, - 2, - 4]] \<and>
   quickDeriv [[1, 1, 1]] [0, 1, 2] = Inr [[0, 0, 0]] \<and>
   (((1::real) - 1) / (2 - 0))\<^sup>2 + 2 * ((- 4 - 0) / (2 - 0)) < (0::real) \<and>
   [(1::real, 1::real, 0::real)] ! 0 = (1, 1, 0)"
  using critSlope_closed_form[where r = "[0, 1, 2]" and rhs = "[[0, 0, - 4]]"
      and ucr = "[[1, 1, 1]]" and indexcrit = "[1]" and res = "[(1, 1, 0)]"
      and out = "[''invalid value encountered in sqrt, set to 0'']" and j = 0 and k = 1
      and dN = "[[0, - 2, - 4]]" and duC = "[[0, 0, 0]]"]
    critSlope_example quickDeriv_example
  by simp

text \<open>
  Claim C4.  When the head of \<open>fullRHS\<close> has computed the density and the Alfven speed
  without raising, then for every model \<open>j\<close> and every grid index \<open>k\<close> the field
  \<open>B[j,k]\<close> is not zero and \<open>rho[j,k] \<cdot> u[j,k] / B[j,k]\<close> equals the anchored value
  \<open>rhoTR \<cdot> u[j,iTR] / B[j,iTR]\<close>, where \<open>rho[j,iTR] = rhoTR\<close> and \<open>iTR\<close> is a grid index
  whose height \<open>r/Rsun - 1\<close> is nearest to \<open>zTR[j]\<close>.  The equality is exact in real
  arithmetic; the program computes it in floating point.
\<close>

theorem massflux_conserved:
  "fullRHS_density r B T zTR u = Inr (rho, VA) \<and> j < length B \<and> k < length r \<longrightarrow>
     B ! j ! k \<noteq> 0 \<and>
     rho ! j ! k * u ! j ! k / B ! j ! k =
       rhoTR (zTR ! j) * u ! j ! iTR_index r (zTR ! j) / B ! j ! iTR_index r (zTR ! j) \<and>
     rho ! j ! iTR_index r (zTR ! j) = rhoTR (zTR ! j) \<and>
     iTR_index r (zTR ! j) < length r \<and>
     (\<forall>i<length r. \<bar>(r ! iTR_index r (zTR ! j) / Rsun - 1.0) - zTR ! j\<bar>
                      \<le> \<bar>(r ! i / Rsun - 1.0) - zTR ! j\<bar>)"
proof (intro impI)
  assume a: "fullRHS_density r B T zTR u = Inr (rho, VA) \<and> j < length B \<and> k < length r"
  then have j: "j < length B" and k: "k < length r" by simp_all
  from a obtain
    rho': "map_err (\<lambda>j. massflux_row r (B ! j) (T ! j) (zTR ! j) (u ! j)) [0..<length B] = Inr rho"
    and VA': "map_err (\<lambda>j. alfven_row (B ! j) (rho ! j)) [0..<length B] = Inr VA"
    unfolding fullRHS_density_def by auto
  have mf: "massflux_row r (B ! j) (T ! j) (zTR ! j) (u ! j) = Inr (rho ! j)"
    using map_err_spec[OF rho'] j by simp
  have al: "alfven_row (B ! j) (rho ! j) = Inr (VA ! j)"
    using map_err_spec[OF VA'] j by simp
  let ?i = "iTR_index r (zTR ! j)"
  let ?c = "rhoTR (zTR ! j) * u ! j ! ?i / B ! j ! ?i"
  note m = massflux_row_spec[OF mf]
  note near = iTR_nearest[OF m(1), where z = "zTR ! j"]
  have pos: "0 < rho ! j ! k" using alfven_row_spec[OF al] k m(2) by simp
  from m(4)[OF k] have uk: "u ! j ! k \<noteq> 0" and
    rk: "rho ! j ! k = ?c * (B ! j ! k / u ! j ! k)" by simp_all
  have Bk: "B ! j ! k \<noteq> 0" using pos rk by auto
  have flux: "rho ! j ! k * u ! j ! k / B ! j ! k = ?c"
    unfolding rk using uk Bk by simp
  from m(4)[OF near(1)] have ui: "u ! j ! ?i \<noteq> 0" and
    ri: "rho ! j ! ?i = ?c * (B ! j ! ?i / u ! j ! ?i)" by simp_all
  have anchor: "rho ! j ! ?i = rhoTR (zTR ! j)" unfolding ri using ui m(3) by simp
  show "B ! j ! k \<noteq> 0 \<and>
     rho ! j ! k * u ! j ! k / B ! j ! k = ?c \<and>
     rho ! j ! ?i = rhoTR (zTR ! j) \<and> ?i < length r \<and>
     (\<forall>i<length r. \<bar>(r ! ?i / Rsun - 1.0) - zTR ! j\<bar> \<le> \<bar>(r ! i / Rsun - 1.0) - zTR ! j\<bar>)"
    using Bk flux anchor near by blast
qed


theorem massflux_conserved_witness:
  "fullRHS_density [2 * Rsun, 3 * Rsun] [[1, 2]] [[0, 0]] [1] [[1, 4]]
     = Inr ([[rhoTR 1, rhoTR 1 / 2]],
            [[1 / sqrt (4 * pi * rhoTR 1), 2 / sqrt (4 * pi * (rhoTR 1 / 2))]]) \<and>
   (0::nat) < 1 \<and> (1::nat) < 2 \<and>
   iTR_index [2 * Rsun, 3 * Rsun] 1 < 2"
  using massflux_conserved[where r = "[2 * Rsun, 3 * Rsun]" and B = "[[1, 2]]"
      and T = "[[0, 0]]" and zTR = "[1]" and u = "[[1, 4]]"
      and rho = "[[rhoTR 1, rhoTR 1 / 2]]"
      and VA = "[[1 / sqrt (4 * pi * rhoTR 1), 2 / sqrt (4 * pi * (rhoTR 1 / 2))]]"
      and j = 0 and k = 1]
    density_example
  by simp




end
